theory Spec2Isabelle
  imports Main "HOL-Library.Signed_Division"
begin

section \<open>Par: the paragraph reformatter (reformat.c, par.c)\<close>

text \<open>
  C integers are modelled as unbounded \<open>int\<close>; C's truncating \<open>/\<close> and \<open>%\<close> are
  \<open>sdiv\<close> and \<open>smod\<close>. Lengths and offsets of byte ranges are \<open>nat\<close>.
\<close>

subsection \<open>justbreaks: the cost of one justified line\<close>

text \<open>
  The score added in the second pass of \<open>justbreaks\<close> for a line with \<open>extra\<close> spare
  columns and \<open>numgaps\<close> inter-word gaps:
  \<^verbatim>\<open>numbiggaps = extra % numgaps;
  score += (extra / numgaps) * (extra + numbiggaps) + numbiggaps;\<close>
\<close>

definition gapcost :: "int \<Rightarrow> int \<Rightarrow> int" where
  "gapcost extra numgaps =
     (let numbiggaps = extra smod numgaps
      in (extra sdiv numgaps) * (extra + numbiggaps) + numbiggaps)"

lemma sdiv_nonneg: "0 \<le> a \<Longrightarrow> 0 < b \<Longrightarrow> (a::int) sdiv b = a div b"
  by (simp add: signed_divide_int_def sgn_if)

lemma smod_nonneg: "0 \<le> a \<Longrightarrow> 0 < b \<Longrightarrow> (a::int) smod b = a mod b"
  by (simp add: signed_modulo_int_def sgn_if)

text \<open>
  Claim C4. For \<open>extra \<ge> 0\<close> and \<open>numgaps \<ge> 1\<close> the cost that pass 2 of justbreaks adds,
  \<open>q * (extra + r) + r\<close> with \<open>q = extra / numgaps\<close> and \<open>r = extra % numgaps\<close>, is
  \<open>r * (q + 1)\<^sup>2 + (numgaps - r) * q\<^sup>2\<close>: the sum of the squares of the extra spaces per
  gap when \<open>r\<close> gaps get \<open>q + 1\<close> and the other \<open>numgaps - r\<close> get \<open>q\<close>.
\<close>

theorem gapcost_sum_of_squares:
  assumes "0 \<le> extra" and "1 \<le> numgaps"
  shows "gapcost extra numgaps =
           (extra smod numgaps) * (extra sdiv numgaps + 1) ^ 2
           + (numgaps - extra smod numgaps) * (extra sdiv numgaps) ^ 2
         \<and> extra sdiv numgaps = extra div numgaps
         \<and> extra smod numgaps = extra mod numgaps"
proof -
  have q: "extra sdiv numgaps = extra div numgaps"
    using assms by (simp add: sdiv_nonneg)
  have r: "extra smod numgaps = extra mod numgaps"
    using assms by (simp add: smod_nonneg)
  have e: "extra = numgaps * (extra div numgaps) + extra mod numgaps"
    by simp
  define q' where "q' = extra div numgaps"
  define r' where "r' = extra mod numgaps"
  have e': "extra = numgaps * q' + r'"
    using e by (simp add: q'_def r'_def)
  have "q' * (extra + r') + r' = r' * (q' + 1) ^ 2 + (numgaps - r') * q' ^ 2"
    by (subst e') (simp add: power2_eq_square algebra_simps)
  then show ?thesis
    using q r by (simp add: gapcost_def Let_def q'_def r'_def)
qed

theorem gapcost_sum_of_squares_witness:
  "gapcost 7 3 = 1 * (2 + 1) ^ 2 + (3 - 1) * 2 ^ 2 \<and> gapcost 7 3 = 17"
  using gapcost_sum_of_squares [of 7 3]
  by (simp add: sdiv_nonneg smod_nonneg)

subsection \<open>par.c: parsing one command-line argument\<close>

text \<open>A C string is a \<open>string\<close> without its terminating NUL; reading at its end gives NUL.\<close>

definition NUL :: char where
  "NUL = CHR 0x00"

fun chead :: "string \<Rightarrow> char" where
  "chead [] = NUL"
| "chead (c # cs) = c"

fun strchr_index :: "string \<Rightarrow> char \<Rightarrow> nat option" where
  "strchr_index [] c = None"
| "strchr_index (x # xs) c =
     (if x = c then Some 0 else map_option Suc (strchr_index xs c))"

definition digtoint :: "char \<Rightarrow> int" where
  "digtoint c =
     (if c = NUL then - 1
      else case strchr_index ''0123456789'' c of Some p \<Rightarrow> int p | None \<Rightarrow> - 1)"

definition isdigit :: "char \<Rightarrow> bool" where
  "isdigit c = (c \<in> set ''0123456789'')"

text \<open>
  The do-while loop of \<open>strtoudec\<close>: \<open>n\<close> is the value so far, \<open>d\<close> the digit just read,
  the string is what follows that digit. \<open>None\<close> is the return value 0 (more than 9999).
\<close>

fun strtoudec_loop :: "int \<Rightarrow> int \<Rightarrow> string \<Rightarrow> int option" where
  "strtoudec_loop n d [] = (if n \<ge> 1000 then None else Some (10 * n + d))"
| "strtoudec_loop n d (c # cs) =
     (if n \<ge> 1000 then None
      else if digtoint c \<ge> 0 then strtoudec_loop (10 * n + d) (digtoint c) cs
      else Some (10 * n + d))"

text \<open>\<open>strtoudec s pn\<close> returns the return value and the new contents of \<open>*pn\<close>.\<close>

definition strtoudec :: "string \<Rightarrow> int \<Rightarrow> bool \<times> int" where
  "strtoudec s pn =
     (let d = digtoint (chead s)
      in if d < 0 then (True, pn)
         else case strtoudec_loop 0 d (tl s) of
                None \<Rightarrow> (False, pn)
              | Some n \<Rightarrow> (True, n))"

record params =
  phelp :: int
  pversion :: int
  pbodychars :: "char set"
  pprotectchars :: "char set"
  pquotechars :: "char set"
  phang :: int
  pprefix :: int
  prepeat :: int
  psuffix :: int
  pwidth :: int
  pcap :: int
  pdiv :: int
  pErr :: int
  pexpel :: int
  pfit :: int
  pguess :: int
  pinvis :: int
  pjust :: int
  plast :: int
  pquote :: int
  pReport :: int
  ptouch :: int
  errmsg :: string

definition errmsg_size :: nat where
  "errmsg_size = 163"

text \<open>The label \<open>badarg\<close>: \<open>sprintf(errmsg, "Bad argument: %.*s\n", errmsg_size - 16, savearg)\<close>.\<close>

definition badarg :: "string \<Rightarrow> params \<Rightarrow> params" where
  "badarg savearg st =
     st\<lparr>errmsg := ''Bad argument: '' @ take (errmsg_size - 16) savearg @ [CHR 0x0A],
        phelp := 1\<rparr>"

definition set_int_option :: "char \<Rightarrow> int \<Rightarrow> params \<Rightarrow> params" where
  "set_int_option oc n st =
     (if oc = CHR ''h'' then st\<lparr>phang := (if n \<ge> 0 then n else 1)\<rparr>
      else if oc = CHR ''w'' then st\<lparr>pwidth := (if n \<ge> 0 then n else 79)\<rparr>
      else if oc = CHR ''p'' then st\<lparr>pprefix := n\<rparr>
      else if oc = CHR ''r'' then st\<lparr>prepeat := (if n \<ge> 0 then n else 3)\<rparr>
      else st\<lparr>psuffix := n\<rparr>)"

definition set_bool_option :: "char \<Rightarrow> int \<Rightarrow> params \<Rightarrow> params option" where
  "set_bool_option oc n st =
     (if oc = CHR ''c'' then Some (st\<lparr>pcap := n\<rparr>)
      else if oc = CHR ''d'' then Some (st\<lparr>pdiv := n\<rparr>)
      else if oc = CHR ''E'' then Some (st\<lparr>pErr := n\<rparr>)
      else if oc = CHR ''e'' then Some (st\<lparr>pexpel := n\<rparr>)
      else if oc = CHR ''f'' then Some (st\<lparr>pfit := n\<rparr>)
      else if oc = CHR ''g'' then Some (st\<lparr>pguess := n\<rparr>)
      else if oc = CHR ''i'' then Some (st\<lparr>pinvis := n\<rparr>)
      else if oc = CHR ''j'' then Some (st\<lparr>pjust := n\<rparr>)
      else if oc = CHR ''l'' then Some (st\<lparr>plast := n\<rparr>)
      else if oc = CHR ''q'' then Some (st\<lparr>pquote := n\<rparr>)
      else if oc = CHR ''R'' then Some (st\<lparr>pReport := n\<rparr>)
      else if oc = CHR ''t'' then Some (st\<lparr>ptouch := n\<rparr>)
      else None)"

text \<open>
  The \<open>for (;;)\<close> loop over the option letters. \<open>arg\<close> is the rest of the argument;
  \<open>strtoudec\<close> reads the number after the letter without moving \<open>arg\<close>, the next
  round's \<open>while (isdigit(*arg)) ++arg\<close> skips it.
\<close>

function parse_options :: "string \<Rightarrow> string \<Rightarrow> params \<Rightarrow> params" where
  "parse_options savearg arg st =
     (case dropWhile isdigit arg of
        [] \<Rightarrow> st
      | oc # rest \<Rightarrow>
          (case strtoudec rest (- 1) of
             (False, n) \<Rightarrow> badarg savearg st
           | (True, n) \<Rightarrow>
               if oc \<in> set ''hprsw'' then parse_options savearg rest (set_int_option oc n st)
               else let n = (if n < 0 then 1 else n)
                    in if n > 1 then badarg savearg st
                       else case set_bool_option oc n st of
                              None \<Rightarrow> badarg savearg st
                            | Some st' \<Rightarrow> parse_options savearg rest st'))"
  by pat_completeness auto
termination
proof (relation "measure (\<lambda>(savearg, arg, st). length arg)")
  show "wf (measure (\<lambda>(savearg, arg, st). length arg))" by simp
next
  fix savearg arg :: string and st :: params and oc rest x y
  assume "dropWhile isdigit arg = oc # rest"
  then have "length (oc # rest) \<le> length arg"
    by (metis length_dropWhile_le)
  then show "((savearg, rest, set_int_option oc y st), savearg, arg, st)
          \<in> measure (\<lambda>(savearg, arg, st). length arg)"
    by simp
next
  fix savearg arg :: string and st st' :: params and oc rest x y n
  assume "dropWhile isdigit arg = oc # rest"
  then have "length (oc # rest) \<le> length arg"
    by (metis length_dropWhile_le)
  then show "((savearg, rest, st'), savearg, arg, st)
          \<in> measure (\<lambda>(savearg, arg, st). length arg)"
    by simp
qed

declare parse_options.simps [simp del]

text \<open>
  \<open>parsecharset\<close>, \<open>csswap\<close>, \<open>csadd\<close> and \<open>csremove\<close> belong to charset.c, of which only
  the header is present: \<open>parsecharset\<close> is a parameter \<open>pcs\<close> that returns the error
  message or the set, and the three operations are replacement, union and difference.
\<close>

definition parse_charset_option ::
  "(string \<Rightarrow> string + char set) \<Rightarrow> string \<Rightarrow> string \<Rightarrow> params \<Rightarrow> params" where
  "parse_charset_option pcs savearg arg st =
     (let which = chead arg; arg1 = tl arg; op = chead arg1
      in if op \<noteq> CHR ''='' \<and> op \<noteq> CHR ''+'' \<and> op \<noteq> CHR ''-'' then badarg savearg st
         else case pcs (tl arg1) of
                Inl msg \<Rightarrow> st\<lparr>errmsg := msg\<rparr>
              | Inr change \<Rightarrow>
                  (let upd = (\<lambda>chars. if op = CHR ''='' then change
                                      else if op = CHR ''+'' then chars \<union> change
                                      else chars - change)
                   in if which = CHR ''B'' then st\<lparr>pbodychars := upd (pbodychars st)\<rparr>
                      else if which = CHR ''P'' then st\<lparr>pprotectchars := upd (pprotectchars st)\<rparr>
                      else st\<lparr>pquotechars := upd (pquotechars st)\<rparr>))"

definition parsearg ::
  "(string \<Rightarrow> string + char set) \<Rightarrow> string \<Rightarrow> params \<Rightarrow> params" where
  "parsearg pcs savearg st0 =
     (let st = st0\<lparr>errmsg := []\<rparr>;
          arg = (if chead savearg = CHR ''-'' then tl savearg else savearg)
      in if arg = ''help'' then st\<lparr>phelp := 1\<rparr>
         else if arg = ''version'' then st\<lparr>pversion := 1\<rparr>
         else if chead arg = CHR ''B'' \<or> chead arg = CHR ''P'' \<or> chead arg = CHR ''Q''
           then parse_charset_option pcs savearg arg st
         else if isdigit (chead arg) then
           (case strtoudec arg 0 of
              (False, n) \<Rightarrow> badarg savearg st
            | (True, n) \<Rightarrow>
                parse_options savearg arg
                  (if n \<le> 8 then st\<lparr>pprefix := n\<rparr> else st\<lparr>pwidth := n\<rparr>))
         else parse_options savearg arg st)"

text \<open>The initial values of the parameters in \<open>main\<close>, and the environment's character sets.\<close>

definition main_init :: "char set \<Rightarrow> char set \<Rightarrow> char set \<Rightarrow> params" where
  "main_init b p q =
     \<lparr>phelp = 0, pversion = 0, pbodychars = b, pprotectchars = p, pquotechars = q,
      phang = 0, pprefix = - 1, prepeat = 0, psuffix = - 1, pwidth = 72, pcap = 0, pdiv = 0,
      pErr = 0, pexpel = 0, pfit = 0, pguess = 0, pinvis = 0, pjust = 0, plast = 0, pquote = 0,
      pReport = 0, ptouch = - 1, errmsg = []\<rparr>"

lemma strtoudec_no_digit: "\<not> isdigit (chead rest) \<Longrightarrow> strtoudec rest n = (True, n)"
  by (cases rest)
     (auto simp: strtoudec_def isdigit_def digtoint_def NUL_def Let_def split: if_splits)

lemma dropWhile_digits_w:
  "\<forall>c \<in> set ds. isdigit c \<Longrightarrow> dropWhile isdigit (ds @ CHR ''w'' # rest) = CHR ''w'' # rest"
  by (induction ds) (simp_all add: isdigit_def)

lemma parse_options_w:
  assumes "\<forall>c \<in> set ds. isdigit c" and "\<not> isdigit (chead rest)"
  shows "parse_options savearg (ds @ CHR ''w'' # rest) st
         = parse_options savearg rest (st\<lparr>pwidth := 79\<rparr>)"
  by (subst parse_options.simps)
     (simp add: dropWhile_digits_w [OF assms(1)] strtoudec_no_digit [OF assms(2)]
        set_int_option_def)

lemma parse_options_end: "parse_options savearg [] st = st"
  by (subst parse_options.simps) simp

text \<open>
  Claim C8 (as amended). Wherever the option loop of \<open>parsearg\<close> reads the letter \<open>w\<close>
  with no digit after it (after the digits that belong to the letter before it, if any),
  it sets the width to 79 and goes on with the rest of the argument; an argument that
  begins with \<open>w\<close> or \<open>-w\<close> reaches the loop at that letter. When the \<open>w\<close> is the last
  byte of the argument the loop ends with the width 79, and for the arguments \<open>w\<close> and
  \<open>-w\<close> \<open>parsearg\<close> changes nothing but the width and \<open>errmsg\<close>, which it empties. 72
  is the value \<open>main\<close> gives the width before it parses any argument.
\<close>

theorem parsearg_bare_w:
  "((\<forall>c \<in> set ds. isdigit c) \<and> \<not> isdigit (chead rest) \<longrightarrow>
      parse_options savearg (ds @ CHR ''w'' # rest) st
        = parse_options savearg rest (st\<lparr>pwidth := 79\<rparr>)
      \<and> parsearg pcs (CHR ''w'' # rest) st
        = parse_options (CHR ''w'' # rest) rest (st\<lparr>errmsg := [], pwidth := 79\<rparr>)
      \<and> parsearg pcs (CHR ''-'' # CHR ''w'' # rest) st
        = parse_options (CHR ''-'' # CHR ''w'' # rest) rest (st\<lparr>errmsg := [], pwidth := 79\<rparr>))
   \<and> ((\<forall>c \<in> set ds. isdigit c) \<longrightarrow>
        parse_options savearg (ds @ ''w'') st = st\<lparr>pwidth := 79\<rparr>)
   \<and> parsearg pcs ''w'' st = st\<lparr>errmsg := [], pwidth := 79\<rparr>
   \<and> parsearg pcs ''-w'' st = st\<lparr>errmsg := [], pwidth := 79\<rparr>
   \<and> pwidth (main_init b p q) = 72"
proof -
  have step: "parse_options sa (ds @ CHR ''w'' # rest) s
                = parse_options sa rest (s\<lparr>pwidth := 79\<rparr>)"
    if "\<forall>c \<in> set ds. isdigit c" "\<not> isdigit (chead rest)" for sa ds rest s
    using that by (rule parse_options_w)
  have nd: "\<not> isdigit NUL" by (simp add: isdigit_def NUL_def)
  have last: "parse_options sa (ds @ ''w'') s = s\<lparr>pwidth := 79\<rparr>"
    if "\<forall>c \<in> set ds. isdigit c" for sa ds s
    using step [OF that, of "[]" sa s] nd by (simp add: parse_options_end)
  have arg: "parsearg pcs (CHR ''w'' # rest) s
               = parse_options (CHR ''w'' # rest) (CHR ''w'' # rest) (s\<lparr>errmsg := []\<rparr>)"
    for rest s
    by (simp add: parsearg_def Let_def isdigit_def)
  have marg: "parsearg pcs (CHR ''-'' # CHR ''w'' # rest) s
               = parse_options (CHR ''-'' # CHR ''w'' # rest) (CHR ''w'' # rest) (s\<lparr>errmsg := []\<rparr>)"
    for rest s
    by (simp add: parsearg_def Let_def isdigit_def)
  have a1: "parsearg pcs (CHR ''w'' # rest) s
        = parse_options (CHR ''w'' # rest) rest (s\<lparr>errmsg := [], pwidth := 79\<rparr>)"
    if "\<not> isdigit (chead rest)" for rest s
    unfolding arg using step [of "[]" rest "CHR ''w'' # rest" "s\<lparr>errmsg := []\<rparr>"] that by simp
  have a2: "parsearg pcs (CHR ''-'' # CHR ''w'' # rest) s
        = parse_options (CHR ''-'' # CHR ''w'' # rest) rest (s\<lparr>errmsg := [], pwidth := 79\<rparr>)"
    if "\<not> isdigit (chead rest)" for rest s
    unfolding marg
    using step [of "[]" rest "CHR ''-'' # CHR ''w'' # rest" "s\<lparr>errmsg := []\<rparr>"] that by simp
  have w1: "parsearg pcs ''w'' st = st\<lparr>errmsg := [], pwidth := 79\<rparr>"
    using a1 [of "[]" st] nd by (simp add: parse_options_end)
  have w2: "parsearg pcs ''-w'' st = st\<lparr>errmsg := [], pwidth := 79\<rparr>"
    using a2 [of "[]" st] nd by (simp add: parse_options_end)
  have m: "pwidth (main_init b p q) = 72" by (simp add: main_init_def)
  show ?thesis
    using step [of ds rest savearg st] a1 [of rest st] a2 [of rest st] last [of ds savearg st]
      w1 w2 m
    by blast
qed

text \<open>
  In the chain \<open>j1w\<close> the loop reads \<open>j\<close> with its number 1, then \<open>w\<close> after that digit:
  the width is 79.
\<close>

theorem parsearg_bare_w_witness:
  "parsearg (\<lambda>s. Inr {}) ''j1w'' (main_init {} {} {})
     = (main_init {} {} {})\<lparr>pjust := 1, pwidth := 79\<rparr>
   \<and> pwidth (parsearg (\<lambda>s. Inr {}) ''j1w'' (main_init {} {} {})) = 79"
proof -
  have d: "\<forall>c \<in> set ''1''. isdigit c" by (simp add: isdigit_def)
  have j: "parsearg (\<lambda>s. Inr {}) ''j1w'' (main_init {} {} {})
             = parse_options ''j1w'' (''1'' @ ''w'') ((main_init {} {} {})\<lparr>pjust := 1\<rparr>)"
    by (simp add: parsearg_def Let_def isdigit_def parse_options.simps [of _ "''j1w''"]
          strtoudec_def digtoint_def NUL_def set_bool_option_def main_init_def)
  from parsearg_bare_w [of "''1''" "[]" "''j1w''" "(main_init {} {} {})\<lparr>pjust := 1\<rparr>"
         "\<lambda>s. Inr {}" "{}" "{}" "{}"] d
  have "parse_options ''j1w'' (''1'' @ ''w'') ((main_init {} {} {})\<lparr>pjust := 1\<rparr>)
          = (main_init {} {} {})\<lparr>pjust := 1, pwidth := 79\<rparr>"
    by blast
  with j show ?thesis by simp
qed

text \<open>The claim as written fails: after \<open>w\<close> alone the width is not 72.\<close>

theorem parsearg_bare_w_counterexample:
  "pwidth (parsearg (\<lambda>s. Inr {}) ''w'' (main_init {} {} {})) = 79
   \<and> pwidth (parsearg (\<lambda>s. Inr {}) ''w'' (main_init {} {} {})) \<noteq> 72"
  by (simp add: parsearg_def Let_def isdigit_def strtoudec_def digtoint_def NUL_def
        set_int_option_def parse_options.simps main_init_def)

subsection \<open>par.c: compresuflen and delimit\<close>

definition cget :: "string \<Rightarrow> nat \<Rightarrow> char" where
  "cget s i = (if i < length s then s ! i else NUL)"




















text \<open>The body region of a line, \<open>line[pre .. len - suf]\<close>, and the claim's \<open>rc\<close>.\<close>

definition body_region :: "nat \<Rightarrow> nat \<Rightarrow> string \<Rightarrow> string" where
  "body_region pre suf line = take (length line - suf - pre) (drop pre line)"







text \<open>
  The second loop of \<open>delimit\<close> walks over the lines: a bodiless line is stepped over,
  and from any other line the inner \<open>for\<close> loop finds the next bodiless line (or the end),
  the lines up to there are one recursive call, and the walk goes on behind them.
  \<open>runs\<close> cuts the lines at these places, each bodiless line a piece of its own.
\<close>

function runs :: "('a \<Rightarrow> bool) \<Rightarrow> 'a list \<Rightarrow> 'a list list" where
  "runs P [] = []"
| "runs P (x # xs) =
     (if P x then [x] # runs P xs
      else (x # takeWhile (\<lambda>y. \<not> P y) xs) # runs P (dropWhile (\<lambda>y. \<not> P y) xs))"
  by pat_completeness auto
termination
  by (relation "measure (\<lambda>(P, xs). length xs)")
     (auto simp: less_Suc_eq_le length_dropWhile_le)






subsection \<open>Which lines delimit leaves bodiless\<close>



lemma runs_marked: "run \<in> set (runs P xs) \<Longrightarrow> P (hd run) \<Longrightarrow> run = [hd run]"
  by (induction P xs rule: runs.induct) (auto split: if_splits)














subsection \<open>reformat.c: words\<close>

text \<open>
  The words of a paragraph form a doubly linked list behind a dummy head; the model keeps
  them in a list, in order. A pointer into a line (\<open>chrs\<close>) is the index of the line and an
  offset. A pointer to a word of the list (\<open>nextline\<close>) is the number of words from that
  word to the end of the list, so that \<open>0\<close> is \<open>NULL\<close>, the last word is \<open>1\<close>, and two
  pointers are equal exactly when the numbers are. The three flag bits are booleans.
\<close>

record word =
  chrs_line :: nat
  chrs_off :: nat
  nextline :: nat
  score :: int
  wlength :: nat
  isshifted :: bool
  iscurious :: bool
  iscapital :: bool

datatype error =
    Impossibility nat
  | OutOfMemory
  | LineTooShort nat nat nat nat
  | WordTooLong string
  | CannotJustify

text \<open>\<open>memcpy\<close> of \<open>n\<close> bytes from offset \<open>off\<close> of a line.\<close>

definition mem :: "string \<Rightarrow> nat \<Rightarrow> nat \<Rightarrow> string" where
  "mem l off n = map (cget l) [off ..< off + n]"

definition word_chars :: "string list \<Rightarrow> word \<Rightarrow> string" where
  "word_chars lines w = mem (lines ! chrs_line w) (chrs_off w) (wlength w)"

definition isalnum :: "char \<Rightarrow> bool" where
  "isalnum c = (c \<in> set ''0123456789ABCDEFGHIJKLMNOPQRSTUVWXYZabcdefghijklmnopqrstuvwxyz'')"

definition islower :: "char \<Rightarrow> bool" where
  "islower c = (c \<in> set ''abcdefghijklmnopqrstuvwxyz'')"

definition checkcapital :: "string list \<Rightarrow> word \<Rightarrow> bool" where
  "checkcapital lines w =
     (case dropWhile (\<lambda>c. \<not> isalnum c) (word_chars lines w) of
        [] \<Rightarrow> False
      | c # cs \<Rightarrow> \<not> islower c)"

text \<open>
  \<open>checkcurious\<close> scans the word from its end: the argument of \<open>curious_scan\<close> is the
  reversed rest of the word, its head is \<open>p[-1]\<close>.
\<close>

fun curious_scan :: "char set \<Rightarrow> string \<Rightarrow> bool" where
  "curious_scan terminalchars [] = False"
| "curious_scan terminalchars (ch # front) =
     (if isalnum ch then False
      else if ch \<in> terminalchars then (front \<noteq> [] \<and> list_ex isalnum front)
      else curious_scan terminalchars front)"

definition checkcurious :: "string list \<Rightarrow> word \<Rightarrow> char set \<Rightarrow> bool" where
  "checkcurious lines w terminalchars = curious_scan terminalchars (rev (word_chars lines w))"

subsection \<open>reformat: creating the words\<close>

definition new_word :: "nat \<Rightarrow> nat \<Rightarrow> nat \<Rightarrow> word" where
  "new_word i off len =
     \<lparr>chrs_line = i, chrs_off = off, nextline = 0, score = 0, wlength = len,
      isshifted = False, iscurious = False, iscapital = False\<rparr>"

text \<open>
  The \<open>for (;;)\<close> loop over one line. \<open>cs\<close> are the bytes from \<open>p1\<close> to \<open>end\<close>, \<open>off\<close> is the
  offset of \<open>p1\<close> in the line; the first word of the paragraph starts at offset \<open>prefix\<close>
  whatever spaces precede it. The result is the words and the new \<open>onfirstword\<close>.
\<close>

function line_words :: "nat \<Rightarrow> nat \<Rightarrow> bool \<Rightarrow> nat \<Rightarrow> string \<Rightarrow> word list \<times> bool" where
  "line_words i prefix onfirstword off cs =
     (let sp = takeWhile (\<lambda>c. c = CHR '' '') cs;
          cs1 = dropWhile (\<lambda>c. c = CHR '' '') cs
      in if cs1 = [] then ([], onfirstword)
         else let p2 = off + length sp + length (takeWhile (\<lambda>c. c \<noteq> CHR '' '') cs1);
                  p1 = (if onfirstword then prefix else off + length sp);
                  (ws, b) = line_words i prefix False p2 (dropWhile (\<lambda>c. c \<noteq> CHR '' '') cs1)
              in (new_word i p1 (p2 - p1) # ws, b))"
  by pat_completeness auto

lemma skip_word_shorter:
  assumes "dropWhile (\<lambda>c. c = CHR '' '') cs \<noteq> []"
  shows "length (dropWhile (\<lambda>c. c \<noteq> CHR '' '') (dropWhile (\<lambda>c. c = CHR '' '') cs)) < length cs"
proof -
  define xa where "xa = dropWhile (\<lambda>c. c = CHR '' '') cs"
  from assms obtain c cs' where xa: "xa = c # cs'"
    by (cases xa) (auto simp: xa_def)
  have "\<not> (hd (dropWhile (\<lambda>c. c = CHR '' '') cs) = CHR '' '')"
    using assms hd_dropWhile [of "\<lambda>c. c = CHR '' ''" cs] by blast
  then have c: "c \<noteq> CHR '' ''"
    using xa by (simp add: xa_def[symmetric])
  have "length (dropWhile (\<lambda>c. c \<noteq> CHR '' '') cs') \<le> length cs'"
    by (rule length_dropWhile_le)
  then have "length (dropWhile (\<lambda>c. c \<noteq> CHR '' '') xa) < length xa"
    using xa c by simp
  also have "length xa \<le> length cs"
    unfolding xa_def by (rule length_dropWhile_le)
  finally show ?thesis by (simp add: xa_def)
qed

termination line_words
  by (relation "measure (\<lambda>(i, prefix, onfirstword, off, cs). length cs)")
     (auto simp: skip_word_shorter)

declare line_words.simps [simp del]

text \<open>
  The do-while loop over the input lines; \<open>i\<close> is the index of the line. A line shorter
  than \<open>prefix + suffix\<close> ends the function with the message of its 1-based number.
\<close>

fun make_words :: "nat \<Rightarrow> nat \<Rightarrow> nat \<Rightarrow> bool \<Rightarrow> string list \<Rightarrow> error + word list" where
  "make_words prefix suffix i onfirstword [] = Inr []"
| "make_words prefix suffix i onfirstword (l # ls) =
     (if length l < prefix + suffix
      then Inl (LineTooShort (i + 1) prefix suffix (prefix + suffix))
      else case line_words i prefix onfirstword prefix
                  (take (length l - suffix - prefix) (drop prefix l)) of
             (ws, b) \<Rightarrow>
               (case make_words prefix suffix (i + 1) b ls of
                  Inl e \<Rightarrow> Inl e
                | Inr ws' \<Rightarrow> Inr (ws @ ws')))"

subsection \<open>reformat: the guess pass\<close>

text \<open>
  \<open>w1->chrs[w1->length] && w1->chrs + w1->length + 1 == w2->chrs\<close>: the byte after \<open>w1\<close>
  is not the end of its line, and \<open>w2\<close> starts one byte later in the same line.
\<close>

definition adjacent :: "string list \<Rightarrow> word \<Rightarrow> word \<Rightarrow> bool" where
  "adjacent lines w1 w2 =
     (cget (lines ! chrs_line w1) (chrs_off w1 + wlength w1) \<noteq> NUL
      \<and> chrs_line w1 = chrs_line w2 \<and> chrs_off w1 + wlength w1 + 1 = chrs_off w2)"

text \<open>
  The loop \<open>for (w1 = head, w2 = head->next; w2; w1 = w2, w2 = w2->next)\<close>. \<open>w1\<close> is
  \<open>None\<close> while it is the dummy head, whose flags are 0. The result is the list from
  \<open>w1\<close> on: a merge removes \<open>w1\<close> from the list and lets \<open>w2\<close> take its place.
\<close>

fun guess_loop :: "string list \<Rightarrow> bool \<Rightarrow> char set \<Rightarrow> word option \<Rightarrow> word list \<Rightarrow> word list" where
  "guess_loop lines cap terminalchars w1 [] = (case w1 of None \<Rightarrow> [] | Some w \<Rightarrow> [w])"
| "guess_loop lines cap terminalchars w1 (w2 # ws) =
     (let w2a = (if checkcurious lines w2 terminalchars then w2\<lparr>iscurious := True\<rparr> else w2)
      in if cap \<or> checkcapital lines w2a then
           (let w2b = w2a\<lparr>iscapital := True\<rparr>
            in case w1 of
                 None \<Rightarrow> guess_loop lines cap terminalchars (Some w2b) ws
               | Some w \<Rightarrow>
                   if iscurious w then
                     (if adjacent lines w w2b
                      then guess_loop lines cap terminalchars
                             (Some (w2b\<lparr>wlength := wlength w2b + (wlength w + 1),
                                        chrs_line := chrs_line w, chrs_off := chrs_off w,
                                        iscapital := iscapital w, isshifted := isshifted w\<rparr>)) ws
                      else w # guess_loop lines cap terminalchars (Some (w2b\<lparr>isshifted := True\<rparr>)) ws)
                   else w # guess_loop lines cap terminalchars (Some w2b) ws)
         else (case w1 of
                 None \<Rightarrow> guess_loop lines cap terminalchars (Some w2a) ws
               | Some w \<Rightarrow> w # guess_loop lines cap terminalchars (Some w2a) ws))"

subsection \<open>reformat: too-long words\<close>

text \<open>
  With \<open>Report\<close>: the first word longer than \<open>L\<close> ends the function with its first
  \<open>min length (errmsg_size - 17)\<close> bytes in the message (\<open>%.*s\<close> stops at a NUL).
\<close>

fun report_long :: "string list \<Rightarrow> int \<Rightarrow> word list \<Rightarrow> error option" where
  "report_long lines L [] = None"
| "report_long lines L (w2 # ws) =
     (if int (wlength w2) > L
      then Some (WordTooLong (takeWhile (\<lambda>c. c \<noteq> NUL)
                   (mem (lines ! chrs_line w2) (chrs_off w2) (min (wlength w2) (errmsg_size - 17)))))
      else report_long lines L ws)"

text \<open>
  Without \<open>Report\<close>: \<open>while (w2->length > L)\<close> puts a new word \<open>w1\<close> of length \<open>L\<close> before
  \<open>w2\<close>; it takes the first \<open>L\<close> bytes and the capital and shifted flags of \<open>w2\<close>. The
  result is the pieces that replace \<open>w2\<close>, in order. For \<open>L \<le> 0\<close> the C loop never
  shortens \<open>w2\<close> and allocates a word per round: see \<open>split_pass\<close>.
\<close>

function split_word :: "int \<Rightarrow> word \<Rightarrow> word list" where
  "split_word L w2 =
     (if 0 < L \<and> int (wlength w2) > L
      then (new_word (chrs_line w2) (chrs_off w2) (nat L))
              \<lparr>iscapital := iscapital w2, isshifted := isshifted w2\<rparr>
           # split_word L (w2\<lparr>chrs_off := chrs_off w2 + nat L, wlength := wlength w2 - nat L,
                               iscapital := False, isshifted := False\<rparr>)
      else [w2])"
  by pat_completeness auto
termination
  by (relation "measure (\<lambda>(L, w2). wlength w2)") auto

declare split_word.simps [simp del]

text \<open>
  The loop over all words. If \<open>L \<le> 0\<close> and a word is longer than \<open>L\<close>, the inner loop
  can only end in its \<open>malloc\<close> failure branch, with the out-of-memory message.
\<close>

definition split_pass :: "int \<Rightarrow> word list \<Rightarrow> error + word list" where
  "split_pass L ws =
     (if L \<le> 0 \<and> (\<exists>w \<in> set ws. int (wlength w) > L) then Inl OutOfMemory
      else Inr (concat (map (split_word L) ws)))"

subsection \<open>simplebreaks\<close>

text \<open>
  What a further word \<open>w2\<close> adds to the length of a line:
  \<open>1 + isshifted(w2) + w2->length\<close>.
\<close>

definition join_len :: "word \<Rightarrow> int" where
  "join_len w = 1 + of_bool (isshifted w) + int (wlength w)"

text \<open>
  The inner loop of the second part of \<open>simplebreaks\<close>, for the word \<open>w1\<close>; the list
  holds \<open>w2\<close> and the words after it. It is entered only for a \<open>w1\<close> whose words up to the
  tail do not fit in \<open>L\<close>, so \<open>linelen > L\<close> ends it before \<open>w2\<close> is \<open>NULL\<close>.
\<close>

definition sb_candidate :: "int \<Rightarrow> word \<Rightarrow> nat \<Rightarrow> word \<Rightarrow> word" where
  "sb_candidate linelen w2 ptr w1 =
     (let sc = (if linelen < score w2 then linelen else score w2)
      in if sc \<ge> score w1 then w1\<lparr>nextline := ptr, score := sc\<rparr> else w1)"

fun sb_inner :: "int \<Rightarrow> int \<Rightarrow> word \<Rightarrow> word list \<Rightarrow> word" where
  "sb_inner L linelen w1 [] = w1"
| "sb_inner L linelen w1 (w2 # rest) =
     (if linelen \<le> L
      then sb_inner L (linelen + join_len w2) (sb_candidate linelen w2 (Suc (length rest)) w1) rest
      else w1)"

text \<open>
  Both outer loops of \<open>simplebreaks\<close> walk from the tail to the head: the state after the
  words \<open>ws\<close> is the updated words, \<open>linelen\<close> (the length of the line from the last word
  visited by the first loop to the tail) and whether the first loop has ended.
  \<open>sb_linelen\<close> is the first loop's \<open>linelen\<close> at \<open>w1\<close>: its initial value at the tail, and
  \<open>linelen += isshifted(w1), w1 = w1->prev, linelen += 1 + w1->length\<close> before.
\<close>

definition sb_linelen :: "word \<Rightarrow> word list \<Rightarrow> int \<Rightarrow> int" where
  "sb_linelen w1 ws ll =
     (case ws of [] \<Rightarrow> int (wlength w1)
      | w # _ \<Rightarrow> ll + of_bool (isshifted w) + 1 + int (wlength w1))"

fun sb_loop :: "int \<Rightarrow> bool \<Rightarrow> word list \<Rightarrow> word list \<times> int \<times> bool" where
  "sb_loop L last' [] = ([], 0, False)"
| "sb_loop L last' (w1 # ws) =
     (case sb_loop L last' ws of
        (ws', ll, stopped) \<Rightarrow>
          if \<not> stopped \<and> sb_linelen w1 ws ll \<le> L
          then (w1\<lparr>score := (if last' then sb_linelen w1 ws ll else L), nextline := 0\<rparr> # ws',
                sb_linelen w1 ws ll, False)
          else (sb_inner L (int (wlength w1)) (w1\<lparr>score := - 1\<rparr>) ws' # ws',
                (if stopped then ll else sb_linelen w1 ws ll), True))"

text \<open>\<open>simplebreaks\<close> returns its value and the words with their new scratch fields.\<close>

definition simplebreaks :: "word list \<Rightarrow> int \<Rightarrow> bool \<Rightarrow> int \<times> word list" where
  "simplebreaks ws L last' =
     (case ws of
        [] \<Rightarrow> (L, ws)
      | _ # _ \<Rightarrow> (case sb_loop L last' ws of (ws', ll, stopped) \<Rightarrow> (score (hd ws'), ws')))"

lemma of_bool_int_bounds [simp]: "(0::int) \<le> of_bool b" "(of_bool b :: int) \<le> 1"
  by (cases b; simp)+

lemma sb_inner_too_long: "L < linelen \<Longrightarrow> sb_inner L linelen w1 rest = w1"
  by (cases rest) auto

lemma sb_linelen_nonneg: "0 \<le> ll \<Longrightarrow> 0 \<le> sb_linelen w1 ws ll"
  by (cases ws) (simp_all add: sb_linelen_def)

lemma sb_loop_linelen_nonneg: "sb_loop L last' ws = (ws', ll, st) \<Longrightarrow> 0 \<le> ll"
proof (induction ws arbitrary: ws' ll st)
  case Nil
  then show ?case by simp
next
  case (Cons w1 ws)
  obtain ws1 ll1 st1 where r: "sb_loop L last' ws = (ws1, ll1, st1)"
    by (cases "sb_loop L last' ws") auto
  from Cons.IH [OF r] have "0 \<le> ll1" .
  then have "0 \<le> sb_linelen w1 ws ll1" by (rule sb_linelen_nonneg)
  with Cons.prems r \<open>0 \<le> ll1\<close> show ?case
    by (auto split: if_splits)
qed

lemma sb_loop_negative:
  assumes "L < 0" and "sb_loop L last' (w1 # ws) = (ws', ll, st)"
  shows "score (hd ws') = - 1"
proof -
  obtain ws1 ll1 st1 where r: "sb_loop L last' ws = (ws1, ll1, st1)"
    by (cases "sb_loop L last' ws") auto
  have ll1: "0 \<le> ll1" using sb_loop_linelen_nonneg [OF r] .
  have inner: "sb_inner L (int (wlength w1)) (w1\<lparr>score := - 1\<rparr>) ws1 = w1\<lparr>score := - 1\<rparr>"
    using assms(1) by (intro sb_inner_too_long) simp
  have "0 \<le> sb_linelen w1 ws ll1"
    using ll1 by (rule sb_linelen_nonneg)
  then have big: "\<not> sb_linelen w1 ws ll1 \<le> L" using assms(1) by simp
  have "ws' = sb_inner L (int (wlength w1)) (w1\<lparr>score := - 1\<rparr>) ws1 # ws1"
    using assms(2) big r by (simp split: if_splits)
  then show ?thesis by (simp add: inner)
qed

lemma simplebreaks_nonneg: "0 \<le> fst (simplebreaks ws L last') \<Longrightarrow> 0 \<le> L"
proof (cases ws)
  case Nil
  then show "0 \<le> fst (simplebreaks ws L last') \<Longrightarrow> 0 \<le> L"
    by (simp add: simplebreaks_def)
next
  case (Cons w1 ws1)
  assume a: "0 \<le> fst (simplebreaks ws L last')"
  show "0 \<le> L"
  proof (rule ccontr)
    assume "\<not> 0 \<le> L"
    then have neg: "L < 0" by simp
    obtain ws' ll st where r: "sb_loop L last' (w1 # ws1) = (ws', ll, st)"
      by (cases "sb_loop L last' (w1 # ws1)") auto
    from sb_loop_negative [OF neg r] a Cons r show False
      by (simp add: simplebreaks_def)
  qed
qed

subsection \<open>normalbreaks\<close>

text \<open>
  The loop \<open>for (tryL = L; ; --tryL)\<close> of the \<open>fit\<close> search; \<open>sc\<close> is the variable \<open>score\<close>.
  It returns \<open>target\<close> and the words as the last call of \<open>simplebreaks\<close> left them.
\<close>

function fit_loop :: "bool \<Rightarrow> word list \<Rightarrow> int \<Rightarrow> int \<Rightarrow> int \<Rightarrow> int \<times> word list" where
  "fit_loop last' ws tryL target sc =
     (case simplebreaks ws tryL last' of
        (shortest, ws') \<Rightarrow>
          if shortest < 0 then (target, ws')
          else if tryL - shortest < sc then fit_loop last' ws' (tryL - 1) tryL (tryL - shortest)
          else fit_loop last' ws' (tryL - 1) target sc)"
  by pat_completeness auto
termination
proof (relation "measure (\<lambda>(last', ws, tryL, target, sc). nat (tryL + 1))")
  show "wf (measure (\<lambda>(last', ws, tryL, target, sc). nat (tryL + 1)))" by simp
next
  fix last' :: bool and ws :: "word list" and tryL target sc :: int and x shortest ws'
  assume "(shortest, ws') = simplebreaks ws tryL last'" "\<not> shortest < 0"
  then have "0 \<le> fst (simplebreaks ws tryL last')"
    by (metis fst_conv not_less)
  then have "0 \<le> tryL" by (rule simplebreaks_nonneg)
  then show "((last', ws', tryL - 1, tryL, tryL - shortest), last', ws, tryL, target, sc)
        \<in> measure (\<lambda>(last', ws, tryL, target, sc). nat (tryL + 1))"
    by simp
next
  fix last' :: bool and ws :: "word list" and tryL target sc :: int and x shortest ws'
  assume "(shortest, ws') = simplebreaks ws tryL last'" "\<not> shortest < 0"
  then have "0 \<le> fst (simplebreaks ws tryL last')"
    by (metis fst_conv not_less)
  then have "0 \<le> tryL" by (rule simplebreaks_nonneg)
  then show "((last', ws', tryL - 1, target, sc), last', ws, tryL, target, sc)
        \<in> measure (\<lambda>(last', ws, tryL, target, sc). nat (tryL + 1))"
    by simp
qed

declare fit_loop.simps [simp del]

text \<open>
  One candidate \<open>w2\<close> of the last loop of \<open>normalbreaks\<close>: \<open>sc\<close> is \<open>score\<close> before
  \<open>extra * extra\<close> is added, \<open>ptr\<close> is the pointer \<open>w2\<close>.
\<close>

definition nb_candidate :: "int \<Rightarrow> int \<Rightarrow> int \<Rightarrow> int \<Rightarrow> nat \<Rightarrow> word \<Rightarrow> word" where
  "nb_candidate linelen minlen extra sc ptr w1 =
     (if linelen \<ge> minlen \<and> sc \<ge> 0 then
        (let sc' = sc + extra * extra
         in if score w1 < 0 \<or> sc' \<le> score w1 then w1\<lparr>nextline := ptr, score := sc'\<rparr> else w1)
      else w1)"

fun nb_inner :: "int \<Rightarrow> int \<Rightarrow> bool \<Rightarrow> int \<Rightarrow> word \<Rightarrow> word list \<Rightarrow> word" where
  "nb_inner target shortest last' linelen w1 [] =
     (if linelen \<le> target then
        (if last' then nb_candidate linelen shortest (target - linelen) 0 0 w1
         else nb_candidate linelen 0 0 0 0 w1)
      else w1)"
| "nb_inner target shortest last' linelen w1 (w2 # rest) =
     (if linelen \<le> target then
        nb_inner target shortest last'
          (linelen + join_len w2)
          (nb_candidate linelen shortest (target - linelen) (score w2) (Suc (length rest)) w1)
          rest
      else w1)"

text \<open>The do-while loop from the tail to the head.\<close>

fun nb_loop :: "int \<Rightarrow> int \<Rightarrow> bool \<Rightarrow> word list \<Rightarrow> word list" where
  "nb_loop target shortest last' [] = []"
| "nb_loop target shortest last' (w1 # ws) =
     (let ws' = nb_loop target shortest last' ws
      in nb_inner target shortest last' (int (wlength w1)) (w1\<lparr>score := - 1\<rparr>) ws' # ws')"

text \<open>\<open>normalbreaks\<close> returns the error, or the words with their line breaks.\<close>

definition normalbreaks :: "word list \<Rightarrow> int \<Rightarrow> bool \<Rightarrow> bool \<Rightarrow> error + word list" where
  "normalbreaks ws L fit last' =
     (if ws = [] then Inr ws
      else case (if fit then fit_loop last' ws L L (L + 1) else (L, ws)) of
        (target, ws1) \<Rightarrow>
          (case simplebreaks ws1 target last' of
             (shortest, ws2) \<Rightarrow>
               if shortest < 0 then Inl (Impossibility 1)
               else let ws3 = nb_loop target shortest last' ws2
                    in if score (hd ws3) < 0 then Inl (Impossibility 2) else Inr ws3))"

subsection \<open>justbreaks\<close>

text \<open>\<open>gap = numgaps ? (extra + numgaps - 1) / numgaps : L\<close>\<close>

definition gap_of :: "int \<Rightarrow> int \<Rightarrow> int \<Rightarrow> int" where
  "gap_of L numgaps extra = (if numgaps \<noteq> 0 then (extra + numgaps - 1) sdiv numgaps else L)"

definition jb1_candidate :: "int \<Rightarrow> int \<Rightarrow> nat \<Rightarrow> word \<Rightarrow> word" where
  "jb1_candidate gap sc ptr w1 =
     (let sc' = (if gap > sc then gap else sc)
      in if sc' < score w1 then w1\<lparr>nextline := ptr, score := sc'\<rparr> else w1)"

fun jb1_inner :: "int \<Rightarrow> bool \<Rightarrow> int \<Rightarrow> int \<Rightarrow> word \<Rightarrow> word list \<Rightarrow> word" where
  "jb1_inner L last' numgaps extra w1 [] =
     (if extra \<ge> 0 then
        jb1_candidate (if last' then gap_of L numgaps extra else 0) 0 0 w1
      else w1)"
| "jb1_inner L last' numgaps extra w1 (w2 # rest) =
     (if extra \<ge> 0 then
        jb1_inner L last' (numgaps + 1)
          (extra - join_len w2)
          (jb1_candidate (gap_of L numgaps extra) (score w2) (Suc (length rest)) w1)
          rest
      else w1)"

fun jb1_loop :: "int \<Rightarrow> bool \<Rightarrow> word list \<Rightarrow> word list" where
  "jb1_loop L last' [] = []"
| "jb1_loop L last' (w1 # ws) =
     (let ws' = jb1_loop L last' ws
      in jb1_inner L last' 0 (L - int (wlength w1)) (w1\<lparr>score := L\<rparr>) ws' # ws')"

definition jb2_candidate :: "int \<Rightarrow> int \<Rightarrow> int \<Rightarrow> int \<Rightarrow> int \<Rightarrow> nat \<Rightarrow> word \<Rightarrow> word" where
  "jb2_candidate maxgap gap numgaps extra sc ptr w1 =
     (if gap \<le> maxgap \<and> sc \<ge> 0 then
        (let sc' = sc + gapcost extra numgaps
         in if score w1 < 0 \<or> sc' \<le> score w1 then w1\<lparr>nextline := ptr, score := sc'\<rparr> else w1)
      else w1)"

fun jb2_inner :: "int \<Rightarrow> int \<Rightarrow> bool \<Rightarrow> int \<Rightarrow> int \<Rightarrow> word \<Rightarrow> word list \<Rightarrow> word" where
  "jb2_inner L maxgap last' numgaps extra w1 [] =
     (if extra \<ge> 0 then
        (if \<not> last' then w1\<lparr>nextline := 0, score := 0\<rparr>
         else jb2_candidate maxgap (gap_of L numgaps extra) numgaps extra 0 0 w1)
      else w1)"
| "jb2_inner L maxgap last' numgaps extra w1 (w2 # rest) =
     (if extra \<ge> 0 then
        jb2_inner L maxgap last' (numgaps + 1)
          (extra - join_len w2)
          (jb2_candidate maxgap (gap_of L numgaps extra) numgaps extra (score w2)
             (Suc (length rest)) w1)
          rest
      else w1)"

fun jb2_loop :: "int \<Rightarrow> int \<Rightarrow> bool \<Rightarrow> word list \<Rightarrow> word list" where
  "jb2_loop L maxgap last' [] = []"
| "jb2_loop L maxgap last' (w1 # ws) =
     (let ws' = jb2_loop L maxgap last' ws
      in jb2_inner L maxgap last' 0 (L - int (wlength w1)) (w1\<lparr>score := - 1\<rparr>) ws' # ws')"

definition justbreaks :: "word list \<Rightarrow> int \<Rightarrow> bool \<Rightarrow> error + word list" where
  "justbreaks ws L last' =
     (if ws = [] then Inr ws
      else let ws1 = jb1_loop L last' ws; maxgap = score (hd ws1)
           in if maxgap \<ge> L then Inl CannotJustify
              else let ws2 = jb2_loop L maxgap last' ws1
                   in if score (hd ws2) < 0 then Inl (Impossibility 3) else Inr ws2)"

subsection \<open>reformat: following the line breaks\<close>

text \<open>
  \<open>cur\<close> is the list from \<open>w1\<close> to the tail. \<open>w1->nextline\<close> is followed when it points
  to a word after \<open>w1\<close> or is \<open>NULL\<close>; any other value cannot be reached by \<open>w2 = w2->next\<close>
  and is read as \<open>NULL\<close> (the breakers leave no such value on the words the loops visit:
  see \<open>chain_ok\<close> below).
\<close>

definition next_ptr :: "word list \<Rightarrow> nat" where
  "next_ptr cur = (if nextline (hd cur) < length cur then nextline (hd cur) else 0)"

definition first_line :: "word list \<Rightarrow> word list" where
  "first_line cur = take (length cur - next_ptr cur) cur"

definition rest_lines :: "word list \<Rightarrow> word list" where
  "rest_lines cur = drop (length cur - next_ptr cur) cur"

text \<open>
  \<open>for (linelen = w1->length, w2 = w1->next; w2 != w1->nextline;
        linelen += 1 + isshifted(w2) + w2->length, w2 = w2->next);\<close>
  over the words after \<open>w1\<close> in its line.
\<close>

fun add_words :: "int \<Rightarrow> word list \<Rightarrow> int" where
  "add_words linelen [] = linelen"
| "add_words linelen (w2 # ws) =
     add_words (linelen + join_len w2) ws"

text \<open>The loop of \<open>touch\<close>: \<open>L\<close> becomes the length of the longest line.\<close>

function longest_line :: "int \<Rightarrow> word list \<Rightarrow> int" where
  "longest_line L cur =
     (if cur = [] then L
      else let linelen = add_words (int (wlength (hd cur))) (tl (first_line cur))
           in longest_line (if linelen > L then linelen else L) (rest_lines cur))"
  by pat_completeness auto
termination
  by (relation "measure (\<lambda>(L, cur). length cur)")
     (auto simp: rest_lines_def next_ptr_def)

declare longest_line.simps [simp del]

text \<open>
  \<open>for (w2 = w1->next, numgaps = 0, extra = L - w1->length; w2 != w1->nextline;
        ++numgaps, extra -= 1 + isshifted(w2) + w2->length, w2 = w2->next);\<close>
\<close>

fun gaps_extra :: "int \<Rightarrow> int \<Rightarrow> word list \<Rightarrow> int \<times> int" where
  "gaps_extra numgaps extra [] = (numgaps, extra)"
| "gaps_extra numgaps extra (w2 # ws) =
     gaps_extra (numgaps + 1) (extra - join_len w2) ws"

text \<open>
  \<open>while (phase >= numgaps) { *q1++ = ' '; phase -= numgaps; }\<close>: the number of spaces
  written and the new \<open>phase\<close>. The loop is reached only between two words of a line,
  where \<open>numgaps \<ge> 1\<close>; for \<open>numgaps \<le> 0\<close> the C loop would not end.
\<close>

function emit_spaces :: "int \<Rightarrow> int \<Rightarrow> nat \<times> int" where
  "emit_spaces phase numgaps =
     (if 0 < numgaps \<and> phase \<ge> numgaps
      then (case emit_spaces (phase - numgaps) numgaps of (n, p) \<Rightarrow> (Suc n, p))
      else (0, phase))"
  by pat_completeness auto
termination
  by (relation "measure (\<lambda>(phase, numgaps). nat phase)") auto

declare emit_spaces.simps [simp del]

text \<open>
  The loop that writes the words of a line; \<open>jst\<close> is \<open>just && (w1->nextline || last)\<close>.
\<close>

fun write_words :: "string list \<Rightarrow> bool \<Rightarrow> int \<Rightarrow> int \<Rightarrow> int \<Rightarrow> word list \<Rightarrow> string" where
  "write_words lines jst numgaps extra phase [] = []"
| "write_words lines jst numgaps extra phase [w2] = word_chars lines w2"
| "write_words lines jst numgaps extra phase (w2 # w3 # ws) =
     word_chars lines w2 @ [CHR '' '']
     @ (if jst then
          (case emit_spaces (phase + extra) numgaps of
             (n, phase') \<Rightarrow>
               replicate n CHR '' '' @ (if isshifted w3 then [CHR '' ''] else [])
               @ write_words lines jst numgaps extra phase' (w3 # ws))
        else (if isshifted w3 then [CHR '' ''] else [])
             @ write_words lines jst numgaps extra phase (w3 # ws))"

text \<open>The bytes before and after the body of output line number \<open>numout\<close> (from 1).\<close>

definition out_prefix :: "string list \<Rightarrow> nat \<Rightarrow> int \<Rightarrow> nat \<Rightarrow> nat \<Rightarrow> string" where
  "out_prefix lines afp hang prefix numout =
     (if numout \<le> length lines then mem (lines ! (numout - 1)) 0 prefix
      else if int (length lines) > hang then mem (last lines) 0 prefix
      else mem (last lines) 0 (min afp prefix) @ replicate (prefix - min afp prefix) CHR '' '')"

definition out_suffix :: "string list \<Rightarrow> nat \<Rightarrow> int \<Rightarrow> nat \<Rightarrow> nat \<Rightarrow> string" where
  "out_suffix lines fs hang suffix numout =
     (if numout \<le> length lines
      then mem (lines ! (numout - 1)) (length (lines ! (numout - 1)) - suffix) suffix
      else if int (length lines) > hang
      then mem (last lines) (length (last lines) - suffix) suffix
      else mem (last lines) (length (last lines) - suffix) (min fs suffix)
           @ replicate (suffix - min fs suffix) CHR '' '')"

text \<open>
  One round of \<open>while (numout < hang || w1)\<close>: the bytes written before the terminating
  NUL. \<open>w2\<close> is the pointer variable \<open>w2\<close> on entry; \<open>numout\<close> is the value before \<open>++numout\<close>.
\<close>

definition build_line ::
  "string list \<Rightarrow> nat \<Rightarrow> nat \<Rightarrow> int \<Rightarrow> nat \<Rightarrow> nat \<Rightarrow> int \<Rightarrow> bool \<Rightarrow> bool
   \<Rightarrow> nat \<Rightarrow> word list \<Rightarrow> nat \<Rightarrow> string" where
  "build_line lines afp fs hang prefix suffix L just last' numout cur w2 =
     (let affix = int prefix + int suffix;
          (numgaps, extra) =
             (if cur \<noteq> [] then gaps_extra 0 (L - int (wlength (hd cur))) (tl (first_line cur))
              else (0, 0));
          w2' = (if cur \<noteq> [] then next_ptr cur else w2);
          linelen = (if suffix \<noteq> 0 \<or> (just \<and> (w2' \<noteq> 0 \<or> last')) then L + affix
                     else if cur \<noteq> [] then int prefix + L - extra
                     else int prefix);
          body = (if cur \<noteq> []
                  then write_words lines (just \<and> (next_ptr cur \<noteq> 0 \<or> last')) numgaps extra
                         (numgaps sdiv 2) (first_line cur)
                  else [])
      in out_prefix lines afp hang prefix (Suc numout)
         @ body
         @ replicate (nat (linelen - affix - int (length body))) CHR '' ''
         @ out_suffix lines fs hang suffix (Suc numout))"

function build_lines ::
  "string list \<Rightarrow> nat \<Rightarrow> nat \<Rightarrow> int \<Rightarrow> nat \<Rightarrow> nat \<Rightarrow> int \<Rightarrow> bool \<Rightarrow> bool
   \<Rightarrow> nat \<Rightarrow> word list \<Rightarrow> nat \<Rightarrow> string list" where
  "build_lines lines afp fs hang prefix suffix L just last' numout cur w2 =
     (if int numout < hang \<or> cur \<noteq> []
      then build_line lines afp fs hang prefix suffix L just last' numout cur w2
           # build_lines lines afp fs hang prefix suffix L just last' (Suc numout)
               (if cur \<noteq> [] then rest_lines cur else [])
               (if cur \<noteq> [] then next_ptr cur else w2)
      else [])"
  by pat_completeness auto
termination
proof (relation "measure (\<lambda>(lines, afp, fs, hang, prefix, suffix, L, just, last', numout, cur, w2).
                   nat (hang - int numout) + length cur)", goal_cases)
  case 1
  show ?case by simp
next
  case (2 lines afp fs hang prefix suffix L just last' numout cur w2)
  have "cur \<noteq> [] \<Longrightarrow> length (rest_lines cur) < length cur"
    by (cases cur) (auto simp: rest_lines_def next_ptr_def)
  moreover have "nat (hang - int (Suc numout)) \<le> nat (hang - int numout)"
    by simp
  moreover have "cur = [] \<Longrightarrow> nat (hang - int (Suc numout)) < nat (hang - int numout)"
    using 2 by auto
  ultimately show ?case
    by (cases "cur = []") auto
qed

declare build_lines.simps [simp del]

subsection \<open>reformat\<close>

text \<open>
  \<open>reformat\<close> returns the error, or the output lines. The allocations (\<open>malloc\<close> and the
  buffer functions of buffer.c, which is not among the sources) succeed, except in the
  loop of \<open>split_pass\<close> that cannot end otherwise.
\<close>

text \<open>``Check for too-long words'', with and without \<open>Report\<close>.\<close>

definition long_words_pass :: "string list \<Rightarrow> int \<Rightarrow> bool \<Rightarrow> word list \<Rightarrow> error + word list" where
  "long_words_pass lines L Report ws =
     (if Report then (case report_long lines L ws of Some e \<Rightarrow> Inl e | None \<Rightarrow> Inr ws)
      else split_pass L ws)"

text \<open>\<open>if (just) justbreaks(head,tail,L,last,errmsg); else normalbreaks(head,tail,L,fit,last,errmsg);\<close>\<close>

definition choose_breaks :: "word list \<Rightarrow> int \<Rightarrow> bool \<Rightarrow> bool \<Rightarrow> bool \<Rightarrow> error + word list" where
  "choose_breaks ws L fit just last' =
     (if just then justbreaks ws L last' else normalbreaks ws L fit last')"

text \<open>``Change L to the length of the longest line if required''.\<close>

definition touch_width :: "bool \<Rightarrow> bool \<Rightarrow> word list \<Rightarrow> int \<Rightarrow> int" where
  "touch_width just touch ws L = (if \<not> just \<and> touch then longest_line 0 ws else L)"

definition reformat ::
  "string list \<Rightarrow> nat \<Rightarrow> nat \<Rightarrow> int \<Rightarrow> nat \<Rightarrow> nat \<Rightarrow> int \<Rightarrow> bool \<Rightarrow> bool \<Rightarrow> bool
   \<Rightarrow> bool \<Rightarrow> bool \<Rightarrow> bool \<Rightarrow> bool \<Rightarrow> char set \<Rightarrow> error + string list" where
  "reformat lines afp fs hang prefix suffix width cap fit guess just last' Report touch
     terminalchars =
     (if lines = [] then Inl (Impossibility 4)
      else case make_words prefix suffix 0 True lines of
        Inl e \<Rightarrow> Inl e
      | Inr ws0 \<Rightarrow>
          (case long_words_pass lines (width - int prefix - int suffix) Report
                  (if guess then guess_loop lines cap terminalchars None ws0 else ws0) of
             Inl e \<Rightarrow> Inl e
           | Inr ws2 \<Rightarrow>
               (case choose_breaks ws2 (width - int prefix - int suffix) fit just last' of
                  Inl e \<Rightarrow> Inl e
                | Inr ws3 \<Rightarrow>
                    Inr (build_lines lines afp fs hang prefix suffix
                           (touch_width just touch ws3 (width - int prefix - int suffix))
                           just last' 0 ws3 0))))"

text \<open>The stages of a call that fails, and of a call that succeeds.\<close>

lemma reformat_Inl:
  assumes "reformat lines afp fs hang prefix suffix width cap fit guess just last' Report touch
             terminalchars = Inl e"
  shows "lines = [] \<and> e = Impossibility 4
     \<or> lines \<noteq> [] \<and> make_words prefix suffix 0 True lines = Inl e
     \<or> lines \<noteq> [] \<and> (\<exists>ws0. make_words prefix suffix 0 True lines = Inr ws0
          \<and> (long_words_pass lines (width - int prefix - int suffix) Report
                 (if guess then guess_loop lines cap terminalchars None ws0 else ws0) = Inl e
             \<or> (\<exists>ws2. long_words_pass lines (width - int prefix - int suffix) Report
                    (if guess then guess_loop lines cap terminalchars None ws0 else ws0) = Inr ws2
                  \<and> choose_breaks ws2 (width - int prefix - int suffix) fit just last' = Inl e)))"
  using assms unfolding reformat_def
  by (auto split: if_splits sum.splits)

lemma reformat_Inr:
  assumes "reformat lines afp fs hang prefix suffix width cap fit guess just last' Report touch
             terminalchars = Inr out"
  shows "lines \<noteq> [] \<and> (\<exists>ws0 ws2 ws3. make_words prefix suffix 0 True lines = Inr ws0
          \<and> long_words_pass lines (width - int prefix - int suffix) Report
                 (if guess then guess_loop lines cap terminalchars None ws0 else ws0) = Inr ws2
          \<and> choose_breaks ws2 (width - int prefix - int suffix) fit just last' = Inr ws3
          \<and> out = build_lines lines afp fs hang prefix suffix
                           (touch_width just touch ws3 (width - int prefix - int suffix))
                           just last' 0 ws3 0)"
  using assms unfolding reformat_def
  by (auto split: if_splits sum.splits)

subsection \<open>The too-long-word pass\<close>

lemma mem_append: "mem l off (a + b) = mem l off a @ mem l (off + a) b"
proof -
  have "[off ..< off + a + b] = [off ..< off + a] @ [off + a ..< off + a + b]"
    by (rule upt_add_eq_append) simp
  then have "[off ..< off + (a + b)] = [off ..< off + a] @ [off + a ..< off + a + b]"
    by (simp add: add.assoc)
  then show ?thesis by (simp add: mem_def)
qed

lemma length_mem [simp]: "length (mem l off n) = n"
  by (simp add: mem_def)

lemma length_word_chars [simp]: "length (word_chars lines w) = wlength w"
  by (simp add: word_chars_def)

lemma split_word_short: "int (wlength w) \<le> L \<Longrightarrow> split_word L w = [w]"
  by (subst split_word.simps) simp

lemma split_word_long:
  "0 < L \<Longrightarrow> L < int (wlength w) \<Longrightarrow>
   split_word L w =
     (new_word (chrs_line w) (chrs_off w) (nat L))\<lparr>iscapital := iscapital w, isshifted := isshifted w\<rparr>
     # split_word L (w\<lparr>chrs_off := chrs_off w + nat L, wlength := wlength w - nat L,
                        iscapital := False, isshifted := False\<rparr>)"
  by (subst split_word.simps) simp

lemma split_word_nonempty: "split_word L w \<noteq> []"
  by (subst split_word.simps) simp

lemma split_word_lengths: "0 < L \<Longrightarrow> \<forall>p \<in> set (split_word L w). int (wlength p) \<le> L"
proof (induction L w rule: split_word.induct)
  case (1 L w2)
  show ?case
  proof (cases "L < int (wlength w2)")
    case True
    with 1 show ?thesis
      by (simp add: split_word_long new_word_def)
  next
    case False
    then show ?thesis by (simp add: split_word_short)
  qed
qed

lemma split_word_butlast:
  "0 < L \<Longrightarrow> \<forall>p \<in> set (butlast (split_word L w)). int (wlength p) = L"
proof (induction L w rule: split_word.induct)
  case (1 L w2)
  show ?case
  proof (cases "L < int (wlength w2)")
    case True
    let ?w = "w2\<lparr>chrs_off := chrs_off w2 + nat L, wlength := wlength w2 - nat L,
                 iscapital := False, isshifted := False\<rparr>"
    let ?p = "(new_word (chrs_line w2) (chrs_off w2) (nat L))
                \<lparr>iscapital := iscapital w2, isshifted := isshifted w2\<rparr>"
    have eq: "split_word L w2 = ?p # split_word L ?w"
      using "1.prems" True by (rule split_word_long)
    have "butlast (split_word L w2) = ?p # butlast (split_word L ?w)"
      unfolding eq using split_word_nonempty [of L ?w] by simp
    moreover have "\<forall>p \<in> set (butlast (split_word L ?w)). int (wlength p) = L"
      using "1.IH" "1.prems" True by simp
    moreover have "int (wlength ?p) = L"
      using "1.prems" by (simp add: new_word_def)
    ultimately show ?thesis by simp
  next
    case False
    then show ?thesis by (simp add: split_word_short)
  qed
qed

lemma split_word_last:
  "0 < L \<Longrightarrow> 0 < wlength w \<Longrightarrow>
   0 < wlength (last (split_word L w)) \<and> int (wlength (last (split_word L w))) \<le> L
   \<or> split_word L w = [w]"
proof (induction L w rule: split_word.induct)
  case (1 L w2)
  show ?case
  proof (cases "L < int (wlength w2)")
    case True
    let ?w = "w2\<lparr>chrs_off := chrs_off w2 + nat L, wlength := wlength w2 - nat L,
                 iscapital := False, isshifted := False\<rparr>"
    have pos: "0 < wlength ?w" using True 1 by simp
    have "0 < wlength (last (split_word L ?w)) \<and> int (wlength (last (split_word L ?w))) \<le> L
          \<or> split_word L ?w = [?w]"
      using 1 True pos by simp
    moreover have "split_word L ?w = [?w] \<Longrightarrow> int (wlength ?w) \<le> L"
      using split_word_lengths [OF \<open>0 < L\<close>, of ?w] by simp
    ultimately have "0 < wlength (last (split_word L ?w)) \<and> int (wlength (last (split_word L ?w))) \<le> L"
      using pos by auto
    then show ?thesis
      using True 1 by (simp add: split_word_long [of L w2] split_word_nonempty)
  next
    case False
    then show ?thesis by (simp add: split_word_short)
  qed
qed

lemma split_word_chars:
  "0 < L \<Longrightarrow> concat (map (word_chars lines) (split_word L w)) = word_chars lines w"
proof (induction L w rule: split_word.induct)
  case (1 L w2)
  show ?case
  proof (cases "L < int (wlength w2)")
    case True
    have len: "wlength w2 = nat L + (wlength w2 - nat L)" using True 1 by simp
    have "word_chars lines w2 =
            mem (lines ! chrs_line w2) (chrs_off w2) (nat L)
            @ mem (lines ! chrs_line w2) (chrs_off w2 + nat L) (wlength w2 - nat L)"
      unfolding word_chars_def by (subst len) (rule mem_append)
    with 1 True show ?thesis
      by (simp add: split_word_long word_chars_def new_word_def)
  next
    case False
    then show ?thesis by (simp add: split_word_short)
  qed
qed

lemma split_word_line:
  "0 < L \<Longrightarrow> \<forall>p \<in> set (split_word L w). chrs_line p = chrs_line w"
proof (induction L w rule: split_word.induct)
  case (1 L w2)
  show ?case
  proof (cases "L < int (wlength w2)")
    case True
    with 1 show ?thesis
      by (simp add: split_word_long new_word_def)
  next
    case False
    then show ?thesis by (simp add: split_word_short)
  qed
qed

lemma split_word_no_flags:
  "\<not> isshifted w \<Longrightarrow> \<not> iscapital w \<Longrightarrow>
   \<forall>p \<in> set (split_word L w). \<not> isshifted p \<and> \<not> iscapital p"
proof (induction L w rule: split_word.induct)
  case (1 L w2)
  show ?case
  proof (cases "0 < L \<and> L < int (wlength w2)")
    case True
    then have "\<forall>p \<in> set (split_word L (w2\<lparr>chrs_off := chrs_off w2 + nat L,
                 wlength := wlength w2 - nat L, iscapital := False, isshifted := False\<rparr>)).
                 \<not> isshifted p \<and> \<not> iscapital p"
      by (intro "1.IH") simp_all
    with True "1.prems" show ?thesis
      by (simp add: split_word_long new_word_def)
  next
    case False
    then have "split_word L w2 = [w2]" by (subst split_word.simps) auto
    then show ?thesis using "1.prems" by simp
  qed
qed

lemma split_word_flags:
  assumes "0 < L" "L < int (wlength w)"
  shows "2 \<le> length (split_word L w)"
    and "isshifted (hd (split_word L w)) = isshifted w"
    and "iscapital (hd (split_word L w)) = iscapital w"
    and "\<forall>p \<in> set (tl (split_word L w)). \<not> isshifted p \<and> \<not> iscapital p"
proof -
  let ?w = "w\<lparr>chrs_off := chrs_off w + nat L, wlength := wlength w - nat L,
               iscapital := False, isshifted := False\<rparr>"
  have eq: "split_word L w =
     (new_word (chrs_line w) (chrs_off w) (nat L))\<lparr>iscapital := iscapital w, isshifted := isshifted w\<rparr>
     # split_word L ?w"
    using assms by (rule split_word_long)
  have "split_word L ?w \<noteq> []" by (rule split_word_nonempty)
  then have "1 \<le> length (split_word L ?w)"
    by (cases "split_word L ?w") auto
  then show "2 \<le> length (split_word L w)" by (simp add: eq)
  show "isshifted (hd (split_word L w)) = isshifted w" by (simp add: eq)
  show "iscapital (hd (split_word L w)) = iscapital w" by (simp add: eq)
  have "\<forall>p \<in> set (split_word L ?w). \<not> isshifted p \<and> \<not> iscapital p"
    by (rule split_word_no_flags) simp_all
  then show "\<forall>p \<in> set (tl (split_word L w)). \<not> isshifted p \<and> \<not> iscapital p"
    by (simp add: eq)
qed

text \<open>
  Claim C6. With \<open>L > 0\<close> (the driver calls \<open>reformat\<close> only with
  \<open>width > prefix + suffix\<close>) the pass without \<open>Report\<close> succeeds and replaces every word
  in place by its pieces; afterwards no word is longer than \<open>L\<close>; a word of length at most
  \<open>L\<close> is unchanged; a longer word becomes at least two pieces, all but the last of length
  exactly \<open>L\<close>, the last of length 1 to \<open>L\<close>, whose bytes in order are the bytes of the
  word, all in the word's line; the first piece has the word's shifted and capital flags
  and the later pieces have neither.
\<close>

theorem split_pass_pieces:
  assumes "0 < L"
  shows "split_pass L ws = Inr (concat (map (split_word L) ws))
     \<and> (\<forall>p \<in> set (concat (map (split_word L) ws)). int (wlength p) \<le> L)
     \<and> (\<forall>w \<in> set ws.
          (int (wlength w) \<le> L \<longrightarrow> split_word L w = [w])
          \<and> (L < int (wlength w) \<longrightarrow>
               2 \<le> length (split_word L w)
               \<and> (\<forall>p \<in> set (butlast (split_word L w)). int (wlength p) = L)
               \<and> 0 < wlength (last (split_word L w))
               \<and> int (wlength (last (split_word L w))) \<le> L
               \<and> concat (map (word_chars lines) (split_word L w)) = word_chars lines w
               \<and> (\<forall>p \<in> set (split_word L w). chrs_line p = chrs_line w)
               \<and> isshifted (hd (split_word L w)) = isshifted w
               \<and> iscapital (hd (split_word L w)) = iscapital w
               \<and> (\<forall>p \<in> set (tl (split_word L w)). \<not> isshifted p \<and> \<not> iscapital p)))"
proof (intro conjI ballI impI)
  show "split_pass L ws = Inr (concat (map (split_word L) ws))"
    using assms by (simp add: split_pass_def)
next
  fix p assume "p \<in> set (concat (map (split_word L) ws))"
  then obtain w where "w \<in> set ws" "p \<in> set (split_word L w)" by auto
  then show "int (wlength p) \<le> L"
    using split_word_lengths [OF assms, of w] by blast
next
  fix w :: word assume "int (wlength w) \<le> L"
  then show "split_word L w = [w]" by (rule split_word_short)
next
  fix w :: word assume long: "L < int (wlength w)"
  show "2 \<le> length (split_word L w)"
    using assms long by (rule split_word_flags)
  show "isshifted (hd (split_word L w)) = isshifted w"
    using assms long by (rule split_word_flags)
  show "iscapital (hd (split_word L w)) = iscapital w"
    using assms long by (rule split_word_flags)
  show "concat (map (word_chars lines) (split_word L w)) = word_chars lines w"
    using assms by (rule split_word_chars)
  have pos: "0 < wlength w" using assms long by simp
  have ne: "split_word L w \<noteq> [w]"
    using split_word_flags(1) [OF assms long] by auto
  show "0 < wlength (last (split_word L w))"
    using split_word_last [OF assms pos] ne by blast
  show "int (wlength (last (split_word L w))) \<le> L"
    using split_word_last [OF assms pos] ne by blast
  fix p
  show "p \<in> set (butlast (split_word L w)) \<Longrightarrow> int (wlength p) = L"
    using split_word_butlast [OF assms, of w] by blast
  show "p \<in> set (split_word L w) \<Longrightarrow> chrs_line p = chrs_line w"
    using split_word_line [OF assms, of w] by blast
  show "p \<in> set (tl (split_word L w)) \<Longrightarrow> \<not> isshifted p"
    using split_word_flags(4) [OF assms long] by blast
  show "p \<in> set (tl (split_word L w)) \<Longrightarrow> \<not> iscapital p"
    using split_word_flags(4) [OF assms long] by blast
qed

definition long_word :: word where
  "long_word = (new_word 0 0 7)\<lparr>isshifted := True, iscapital := True, iscurious := True\<rparr>"

theorem split_pass_pieces_witness:
  "split_pass 3 [long_word] =
     Inr [(new_word 0 0 3)\<lparr>isshifted := True, iscapital := True\<rparr>,
          new_word 0 3 3,
          (new_word 0 6 1)\<lparr>iscurious := True\<rparr>]"
proof -
  have sw: "split_word 3 long_word =
      [(new_word 0 0 3)\<lparr>isshifted := True, iscapital := True\<rparr>,
       new_word 0 3 3, (new_word 0 6 1)\<lparr>iscurious := True\<rparr>]"
    by (simp add: split_word.simps long_word_def new_word_def)
  have "split_pass 3 [long_word] = Inr (concat (map (split_word 3) [long_word]))"
    using split_pass_pieces [of 3 "[long_word]" "[]"] by simp
  then show ?thesis by (simp add: sw)
qed

subsection \<open>Lines shorter than the affixes\<close>

lemma make_words_ok:
  "\<forall>l \<in> set lines. prefix + suffix \<le> length l \<Longrightarrow>
   \<exists>ws. make_words prefix suffix i b lines = Inr ws"
proof (induction lines arbitrary: i b)
  case Nil
  then show ?case by simp
next
  case (Cons l ls)
  obtain ws b' where lw: "line_words i prefix b prefix
      (take (length l - suffix - prefix) (drop prefix l)) = (ws, b')"
    by (cases "line_words i prefix b prefix (take (length l - suffix - prefix) (drop prefix l))")
  from Cons.prems have "\<forall>l \<in> set ls. prefix + suffix \<le> length l" by simp
  from Cons.IH [OF this] obtain ws' where "make_words prefix suffix (i + 1) b' ls = Inr ws'"
    by blast
  with Cons.prems lw show ?case by simp
qed

lemma make_words_short:
  assumes "make_words prefix suffix i b lines = Inl e"
  shows "\<exists>k < length lines. e = LineTooShort (i + k + 1) prefix suffix (prefix + suffix)
           \<and> length (lines ! k) < prefix + suffix
           \<and> (\<forall>j < k. prefix + suffix \<le> length (lines ! j))"
  using assms
proof (induction lines arbitrary: i b)
  case Nil
  then show ?case by simp
next
  case (Cons l ls)
  show ?case
  proof (cases "length l < prefix + suffix")
    case True
    with Cons.prems have "e = LineTooShort (i + 0 + 1) prefix suffix (prefix + suffix)"
      by simp
    with True show ?thesis
      by (intro exI [of _ 0]) simp
  next
    case False
    obtain ws b' where lw: "line_words i prefix b prefix
        (take (length l - suffix - prefix) (drop prefix l)) = (ws, b')"
      by (cases "line_words i prefix b prefix (take (length l - suffix - prefix) (drop prefix l))")
    from Cons.prems False lw have "make_words prefix suffix (i + 1) b' ls = Inl e"
      by (simp split: sum.splits)
    from Cons.IH [OF this] obtain k where k: "k < length ls"
        "e = LineTooShort (i + 1 + k + 1) prefix suffix (prefix + suffix)"
        "length (ls ! k) < prefix + suffix" "\<forall>j < k. prefix + suffix \<le> length (ls ! j)"
      by blast
    have "\<forall>j < Suc k. prefix + suffix \<le> length ((l # ls) ! j)"
    proof (intro allI impI)
      fix j assume "j < Suc k"
      then show "prefix + suffix \<le> length ((l # ls) ! j)"
        using False k(4) by (cases j) simp_all
    qed
    with k show ?thesis
      by (intro exI [of _ "Suc k"]) simp
  qed
qed

lemma make_words_fails:
  "\<exists>l \<in> set lines. length l < prefix + suffix \<Longrightarrow>
   \<exists>e. make_words prefix suffix i b lines = Inl e"
proof (induction lines arbitrary: i b)
  case Nil
  then show ?case by simp
next
  case (Cons l ls)
  show ?case
  proof (cases "length l < prefix + suffix")
    case True
    then show ?thesis by simp
  next
    case False
    obtain ws b' where lw: "line_words i prefix b prefix
        (take (length l - suffix - prefix) (drop prefix l)) = (ws, b')"
      by (cases "line_words i prefix b prefix (take (length l - suffix - prefix) (drop prefix l))")
    from Cons.prems False have "\<exists>l \<in> set ls. length l < prefix + suffix" by simp
    from Cons.IH [OF this] obtain e where "make_words prefix suffix (i + 1) b' ls = Inl e"
      by blast
    with False lw show ?thesis by simp
  qed
qed

text \<open>The errors of the later stages are other errors.\<close>

lemma report_long_error: "report_long lines L ws = Some e \<Longrightarrow> \<exists>s. e = WordTooLong s"
  by (induction ws) (auto split: if_splits)

lemma split_pass_error: "split_pass L ws = Inl e \<Longrightarrow> e = OutOfMemory"
  by (auto simp: split_pass_def split: if_splits)

lemma normalbreaks_error:
  "normalbreaks ws L fit last' = Inl e \<Longrightarrow> e = Impossibility 1 \<or> e = Impossibility 2"
  by (auto simp: normalbreaks_def Let_def split: if_splits prod.splits)

lemma justbreaks_error:
  "justbreaks ws L last' = Inl e \<Longrightarrow> e = CannotJustify \<or> e = Impossibility 3"
  by (auto simp: justbreaks_def Let_def split: if_splits)

lemma long_words_pass_error:
  "long_words_pass lines L Report ws = Inl e \<Longrightarrow> e = OutOfMemory \<or> (\<exists>s. e = WordTooLong s)"
  unfolding long_words_pass_def
  using report_long_error [of lines L ws e] split_pass_error [of L ws e]
  by (auto split: if_splits option.splits)

lemma choose_breaks_error:
  "choose_breaks ws L fit just last' = Inl e \<Longrightarrow>
   e = CannotJustify \<or> e = Impossibility 1 \<or> e = Impossibility 2 \<or> e = Impossibility 3"
  unfolding choose_breaks_def
  using justbreaks_error [of ws L last' e] normalbreaks_error [of ws L fit last' e]
  by (auto split: if_splits)

lemma reformat_after_words:
  assumes "make_words prefix suffix 0 True lines = Inr ws0"
    and "reformat lines afp fs hang prefix suffix width cap fit guess just last' Report touch
           terminalchars = Inl e"
  shows "e = OutOfMemory \<or> e = CannotJustify \<or> (\<exists>s. e = WordTooLong s)
         \<or> e = Impossibility 1 \<or> e = Impossibility 2 \<or> e = Impossibility 3
         \<or> e = Impossibility 4"
  using reformat_Inl [OF assms(2)] assms(1) long_words_pass_error choose_breaks_error
  by (metis sum.inject(2) sum.simps(4))

text \<open>
  Claim C7. \<open>reformat\<close> ends with the line-too-short error exactly when some input line
  is shorter than \<open>prefix + suffix\<close>; the error then carries the 1-based number of the
  first such line, \<open>prefix\<close>, \<open>suffix\<close> and their sum, and there are no output lines. When no
  line is shorter, the error is never raised.
\<close>

theorem reformat_line_too_short:
  "((\<exists>l \<in> set lines. length l < prefix + suffix) \<longleftrightarrow>
      (\<exists>i p s a. reformat lines afp fs hang prefix suffix width cap fit guess just last' Report
                    touch terminalchars = Inl (LineTooShort i p s a)))
   \<and> (\<forall>i p s a. reformat lines afp fs hang prefix suffix width cap fit guess just last' Report
                    touch terminalchars = Inl (LineTooShort i p s a) \<longrightarrow>
         1 \<le> i \<and> i \<le> length lines \<and> length (lines ! (i - 1)) < prefix + suffix
         \<and> (\<forall>j < i - 1. prefix + suffix \<le> length (lines ! j))
         \<and> p = prefix \<and> s = suffix \<and> a = prefix + suffix)"
proof -
  let ?R = "reformat lines afp fs hang prefix suffix width cap fit guess just last' Report
              touch terminalchars"
  have fwd: "\<exists>i p s a. ?R = Inl (LineTooShort i p s a)"
    if short: "\<exists>l \<in> set lines. length l < prefix + suffix"
  proof -
    from short have ne: "lines \<noteq> []" by auto
    from make_words_fails [OF short] obtain e where e: "make_words prefix suffix 0 True lines = Inl e"
      by blast
    from make_words_short [OF e] obtain k where
      "e = LineTooShort (0 + k + 1) prefix suffix (prefix + suffix)" by blast
    with e ne show ?thesis by (simp add: reformat_def)
  qed
  have bwd: "1 \<le> i \<and> i \<le> length lines \<and> length (lines ! (i - 1)) < prefix + suffix
         \<and> (\<forall>j < i - 1. prefix + suffix \<le> length (lines ! j))
         \<and> p = prefix \<and> s = suffix \<and> a = prefix + suffix"
    if err: "?R = Inl (LineTooShort i p s a)" for i p s a
  proof -
    from err have ne: "lines \<noteq> []" by (auto simp: reformat_def)
    show ?thesis
    proof (cases "make_words prefix suffix 0 True lines")
      case (Inl e)
      with err ne have "e = LineTooShort i p s a" by (simp add: reformat_def)
      with make_words_short [OF Inl] show ?thesis by auto
    next
      case (Inr ws0)
      from reformat_after_words [OF Inr err] show ?thesis by simp
    qed
  qed
  have "\<exists>l \<in> set lines. length l < prefix + suffix"
    if err: "?R = Inl (LineTooShort i p s a)" for i p s a
  proof -
    from bwd [OF err] have "i - 1 < length lines" "length (lines ! (i - 1)) < prefix + suffix"
      by auto
    then show ?thesis by (metis nth_mem)
  qed
  with fwd bwd show ?thesis by blast
qed

theorem reformat_line_too_short_witness:
  "reformat [''> ab #'', ''>'', ''> cd #''] 2 2 0 2 2 10 False False False False False False False {}
     = Inl (LineTooShort 2 2 2 4)"
proof -
  have short: "\<exists>l \<in> set [''> ab #'', ''>'', ''> cd #'']. length l < 2 + 2" by simp
  from reformat_line_too_short [of "[''> ab #'', ''>'', ''> cd #'']" 2 2 2 2 0 10
         False False False False False False False "{}"] short
  obtain i p s a where r: "reformat [''> ab #'', ''>'', ''> cd #''] 2 2 0 2 2 10
         False False False False False False False {} = Inl (LineTooShort i p s a)"
    and "1 \<le> i" "i \<le> 3" "length ([''> ab #'', ''>'', ''> cd #''] ! (i - 1)) < 2 + 2"
        "p = 2" "s = 2" "a = 2 + 2"
    by (metis (no_types, lifting) length_Cons list.size(3) numeral_3_eq_3 One_nat_def)
  then have "i = 2"
    by (cases "i = 1"; cases "i = 2"; cases "i = 3") auto
  with r \<open>p = 2\<close> \<open>s = 2\<close> \<open>a = 2 + 2\<close> show ?thesis by simp
qed

subsection \<open>A paragraph without words\<close>

lemma line_words_blank:
  "\<forall>c \<in> set cs. c = CHR '' '' \<Longrightarrow> line_words i prefix b off cs = ([], b)"
  by (subst line_words.simps) (simp add: Let_def)

lemma make_words_blank:
  "\<forall>l \<in> set lines. prefix + suffix \<le> length l
       \<and> (\<forall>c \<in> set (body_region prefix suffix l). c = CHR '' '') \<Longrightarrow>
   make_words prefix suffix i b lines = Inr []"
proof (induction lines arbitrary: i)
  case Nil
  then show ?case by simp
next
  case (Cons l ls)
  then have "\<forall>c \<in> set (take (length l - suffix - prefix) (drop prefix l)). c = CHR '' ''"
    by (simp add: body_region_def)
  then have "line_words i prefix b prefix (take (length l - suffix - prefix) (drop prefix l)) = ([], b)"
    by (rule line_words_blank)
  with Cons show ?case by simp
qed

subsection \<open>The error message buffer\<close>

text \<open>\<open>%d\<close> and \<open>%ld\<close> of a non-negative number.\<close>

function dec :: "nat \<Rightarrow> string" where
  "dec n = (if n < 10 then [''0123456789'' ! n] else dec (n div 10) @ [''0123456789'' ! (n mod 10)])"
  by pat_completeness auto
termination
  by (relation "measure id") auto

declare dec.simps [simp del]

text \<open>
  The text each failure writes into \<open>errmsg\<close>. The format string \<open>impossibility\<close> is
  declared in a header that is not among the sources: \<open>imp n\<close> stands for what
  \<open>sprintf(errmsg, impossibility, n)\<close> writes. \<open>outofmem\<close> is given in errmsg.h.
\<close>

definition outofmem :: string where
  "outofmem = ''Out of memory.'' @ [CHR 0x0A]"

fun errmsg_text :: "(nat \<Rightarrow> string) \<Rightarrow> error \<Rightarrow> string" where
  "errmsg_text imp (Impossibility n) = imp n"
| "errmsg_text imp OutOfMemory = outofmem"
| "errmsg_text imp (LineTooShort i p s a) =
     ''Line '' @ dec i @ '' shorter than <prefix> + <suffix> = '' @ dec p @ '' + '' @ dec s
     @ '' = '' @ dec a @ [CHR 0x0A]"
| "errmsg_text imp (WordTooLong s) = ''Word too long: '' @ s @ [CHR 0x0A]"
| "errmsg_text imp CannotJustify = ''Cannot justify.'' @ [CHR 0x0A]"

lemma dec_nonempty: "dec n \<noteq> []"
  by (subst dec.simps) simp

lemma dec_length: "0 < k \<Longrightarrow> n < 10 ^ k \<Longrightarrow> length (dec n) \<le> k"
proof (induction n arbitrary: k rule: dec.induct)
  case (1 n)
  show ?case
  proof (cases "n < 10")
    case True
    then have "length (dec n) = 1" by (subst dec.simps) simp
    with "1.prems" show ?thesis by simp
  next
    case False
    then have l: "length (dec n) = Suc (length (dec (n div 10)))"
      by (subst dec.simps) simp
    from False "1.prems" have k: "1 < k"
      by (cases "k = 1") auto
    then obtain k' where k': "k = Suc k'" "0 < k'"
      by (cases k) auto
    from "1.prems" k' have "n div 10 < 10 ^ k'"
      by (simp add: less_mult_imp_div_less mult.commute)
    with "1.IH" [OF False k'(2)] have "length (dec (n div 10)) \<le> k'" .
    with l k' show ?thesis by simp
  qed
qed

lemma report_long_excerpt:
  "report_long lines L ws = Some e \<Longrightarrow> \<exists>s. e = WordTooLong s \<and> length s \<le> errmsg_size - 17"
proof (induction ws)
  case Nil
  then show ?case by simp
next
  case (Cons w ws)
  show ?case
  proof (cases "int (wlength w) > L")
    case True
    let ?m = "mem (lines ! chrs_line w) (chrs_off w) (min (wlength w) (errmsg_size - 17))"
    have "length (takeWhile (\<lambda>c. c \<noteq> NUL) ?m) \<le> length ?m"
      by (rule length_takeWhile_le)
    also have "\<dots> \<le> errmsg_size - 17" by simp
    finally show ?thesis using Cons.prems True by auto
  next
    case False
    with Cons show ?thesis by simp
  qed
qed

lemma long_words_pass_excerpt:
  "long_words_pass lines L Report ws = Inl e \<Longrightarrow>
   e = OutOfMemory \<or> (\<exists>s. e = WordTooLong s \<and> length s \<le> errmsg_size - 17)"
  unfolding long_words_pass_def
  using report_long_excerpt [of lines L ws e] split_pass_error [of L ws e]
  by (auto split: if_splits option.splits)

text \<open>Every error of \<open>reformat\<close>, with what bounds its message.\<close>

lemma reformat_errors:
  assumes "reformat lines afp fs hang prefix suffix width cap fit guess just last' Report touch
             terminalchars = Inl e"
  shows "e = OutOfMemory \<or> e = CannotJustify
         \<or> (\<exists>s. e = WordTooLong s \<and> length s \<le> errmsg_size - 17)
         \<or> (\<exists>n \<in> {1, 2, 3, 4}. e = Impossibility n)
         \<or> (\<exists>i. e = LineTooShort i prefix suffix (prefix + suffix) \<and> i \<le> length lines)"
proof -
  from reformat_Inl [OF assms] consider
      (none) "e = Impossibility 4"
    | (short) "make_words prefix suffix 0 True lines = Inl e"
    | (long) ws where "long_words_pass lines (width - int prefix - int suffix) Report ws = Inl e"
    | (breaks) ws where "choose_breaks ws (width - int prefix - int suffix) fit just last' = Inl e"
    by blast
  then show ?thesis
  proof cases
    case none
    then show ?thesis by simp
  next
    case short
    from make_words_short [OF short] show ?thesis by auto
  next
    case long
    from long_words_pass_excerpt [OF long] show ?thesis by auto
  next
    case breaks
    from choose_breaks_error [OF breaks] show ?thesis by auto
  qed
qed

lemma line_too_short_text_length:
  assumes "i < 2 ^ 63" "p < 2 ^ 31" "s < 2 ^ 31" "a < 2 ^ 31"
  shows "length (errmsg_text imp (LineTooShort i p s a)) \<le> 97"
proof -
  have "i < 10 ^ 19" using assms(1) by simp
  then have i: "length (dec i) \<le> 19" by (intro dec_length) simp_all
  have "p < 10 ^ 10" "s < 10 ^ 10" "a < 10 ^ 10" using assms by simp_all
  then have "length (dec p) \<le> 10" "length (dec s) \<le> 10" "length (dec a) \<le> 10"
    by (auto intro!: dec_length)
  with i show ?thesis by simp
qed

subsection \<open>reformat with its allocations and its error buffer\<close>

text \<open>
  \<open>reformat\<close> as its caller sees it: the pointer it returns (\<open>None\<close> is \<open>NULL\<close>) and the
  contents of \<open>errmsg\<close> up to its NUL. The calls that can fail for want of memory are
  \<open>malloc\<close> and the functions \<open>newbuffer\<close>, \<open>additem\<close> and \<open>copyitems\<close> of buffer.c;
  \<open>avail\<close> is the number of these calls, in the order the code makes them, that succeed
  before the first that fails. After a failing \<open>malloc\<close> the code copies \<open>outofmem\<close> into
  \<open>errmsg\<close>. buffer.c is not among the sources: a failing buffer function leaves
  \<open>bufmsg\<close> in \<open>errmsg\<close> (errmsg.h: a function that takes \<open>errmsg\<close> sets \<open>errmsg[0]\<close> to
  NUL on success or writes an error message string on failure).
\<close>

text \<open>
  The loop over the input lines: one \<open>malloc\<close> for every word, after the length of the
  line has been checked. The result is the error, or the words with the calls left.
\<close>

fun make_words_c ::
  "nat \<Rightarrow> nat \<Rightarrow> nat \<Rightarrow> nat \<Rightarrow> bool \<Rightarrow> string list \<Rightarrow> error + word list \<times> nat" where
  "make_words_c avail prefix suffix i onfirstword [] = Inr ([], avail)"
| "make_words_c avail prefix suffix i onfirstword (l # ls) =
     (if length l < prefix + suffix
      then Inl (LineTooShort (i + 1) prefix suffix (prefix + suffix))
      else case line_words i prefix onfirstword prefix
                  (take (length l - suffix - prefix) (drop prefix l)) of
             (ws, b) \<Rightarrow>
               if avail < length ws then Inl OutOfMemory
               else (case make_words_c (avail - length ws) prefix suffix (i + 1) b ls of
                       Inl e \<Rightarrow> Inl e
                     | Inr (ws', avail') \<Rightarrow> Inr (ws @ ws', avail')))"

text \<open>
  The splitting loop: one \<open>malloc\<close> for every piece it cuts off, so as many as there are
  more words afterwards. With \<open>L \<le> 0\<close> a word longer than \<open>L\<close> stays longer than \<open>L\<close>,
  and the loop goes on until a \<open>malloc\<close> fails.
\<close>

definition split_pass_c :: "nat \<Rightarrow> int \<Rightarrow> word list \<Rightarrow> error + word list \<times> nat" where
  "split_pass_c avail L ws =
     (if L \<le> 0 \<and> (\<exists>w \<in> set ws. int (wlength w) > L) then Inl OutOfMemory
      else let ps = concat (map (split_word L) ws); n = length ps - length ws
           in if avail < n then Inl OutOfMemory else Inr (ps, avail - n))"

definition long_words_pass_c ::
  "nat \<Rightarrow> string list \<Rightarrow> int \<Rightarrow> bool \<Rightarrow> word list \<Rightarrow> error + word list \<times> nat" where
  "long_words_pass_c avail lines L Report ws =
     (if Report then (case report_long lines L ws of Some e \<Rightarrow> Inl e | None \<Rightarrow> Inr (ws, avail))
      else split_pass_c avail L ws)"

text \<open>
  \<open>normalbreaks\<close> and \<open>justbreaks\<close> with their parameter \<open>errmsg\<close>: the contents of
  \<open>errmsg\<close> on return, and the words as the function leaves them. \<open>imp n\<close> is what
  \<open>sprintf(errmsg, impossibility, n)\<close> writes.
\<close>

definition normalbreaks_c ::
  "(nat \<Rightarrow> string) \<Rightarrow> word list \<Rightarrow> int \<Rightarrow> bool \<Rightarrow> bool \<Rightarrow> string \<times> word list" where
  "normalbreaks_c imp ws L fit last' =
     (if ws = [] then ([], ws)
      else case (if fit then fit_loop last' ws L L (L + 1) else (L, ws)) of
        (target, ws1) \<Rightarrow>
          (case simplebreaks ws1 target last' of
             (shortest, ws2) \<Rightarrow>
               if shortest < 0 then (imp 1, ws2)
               else let ws3 = nb_loop target shortest last' ws2
                    in if score (hd ws3) < 0 then (imp 2, ws3) else ([], ws3)))"

definition justbreaks_c ::
  "(nat \<Rightarrow> string) \<Rightarrow> word list \<Rightarrow> int \<Rightarrow> bool \<Rightarrow> string \<times> word list" where
  "justbreaks_c imp ws L last' =
     (if ws = [] then ([], ws)
      else let ws1 = jb1_loop L last' ws; maxgap = score (hd ws1)
           in if maxgap \<ge> L then (''Cannot justify.'' @ [CHR 0x0A], ws1)
              else let ws2 = jb2_loop L maxgap last' ws1
                   in if score (hd ws2) < 0 then (imp 3, ws2) else ([], ws2))"

definition choose_breaks_c ::
  "(nat \<Rightarrow> string) \<Rightarrow> word list \<Rightarrow> int \<Rightarrow> bool \<Rightarrow> bool \<Rightarrow> bool \<Rightarrow> string \<times> word list" where
  "choose_breaks_c imp ws L fit just last' =
     (if just then justbreaks_c imp ws L last' else normalbreaks_c imp ws L fit last')"

text \<open>
  The loop \<open>while (numout < hang || w1)\<close> with its two calls that can fail in every
  round, \<open>malloc\<close> for the line and \<open>additem\<close>. \<open>items\<close> are the lines in the buffer. The
  result is the items, and the contents of \<open>errmsg\<close> at the \<open>goto rfcleanup\<close> or the calls
  left at the end of the loop.
\<close>

function build_lines_c ::
  "string \<Rightarrow> string list \<Rightarrow> nat \<Rightarrow> nat \<Rightarrow> int \<Rightarrow> nat \<Rightarrow> nat \<Rightarrow> int \<Rightarrow> bool \<Rightarrow> bool
   \<Rightarrow> nat \<Rightarrow> string list \<Rightarrow> nat \<Rightarrow> word list \<Rightarrow> nat \<Rightarrow> string list \<times> (string + nat)" where
  "build_lines_c bufmsg lines afp fs hang prefix suffix L just last' avail items numout cur w2 =
     (if int numout < hang \<or> cur \<noteq> []
      then if avail = 0 then (items, Inl outofmem)
           else if avail = 1 then (items, Inl bufmsg)
           else build_lines_c bufmsg lines afp fs hang prefix suffix L just last' (avail - 2)
                  (items @ [build_line lines afp fs hang prefix suffix L just last' numout cur w2])
                  (Suc numout)
                  (if cur \<noteq> [] then rest_lines cur else [])
                  (if cur \<noteq> [] then next_ptr cur else w2)
      else (items, Inr avail))"
  by pat_completeness auto
termination
proof (relation "measure (\<lambda>(bufmsg, lines, afp, fs, hang, prefix, suffix, L, just, last', avail,
                   items, numout, cur, w2). nat (hang - int numout) + length cur)", goal_cases)
  case 1
  show ?case by simp
next
  case (2 bufmsg lines afp fs hang prefix suffix L just last' avail items numout cur w2)
  have "cur \<noteq> [] \<Longrightarrow> length (rest_lines cur) < length cur"
    by (cases cur) (auto simp: rest_lines_def next_ptr_def)
  moreover have "nat (hang - int (Suc numout)) \<le> nat (hang - int numout)"
    by simp
  moreover have "cur = [] \<Longrightarrow> nat (hang - int (Suc numout)) < nat (hang - int numout)"
    using 2 by auto
  ultimately show ?case
    by (cases "cur = []") auto
qed

declare build_lines_c.simps [simp del]

text \<open>
  The label \<open>rfcleanup\<close>. \<open>pbuf\<close> is \<open>NULL\<close> or the buffer with its items, \<open>outlines\<close> is
  \<open>NULL\<close> or the array to return. The loop
  \<open>for (;;) { outlines = nextitem(pbuf); if (!outlines) break; free(*outlines); }\<close>
  runs when there is a buffer and no array; it ends when \<open>outlines\<close> is \<open>NULL\<close>.
\<close>

fun free_items :: "string list \<Rightarrow> string list option" where
  "free_items [] = None"
| "free_items (q # items) = free_items items"

definition rfcleanup ::
  "string list option \<Rightarrow> string list option \<Rightarrow> string \<Rightarrow> string list option \<times> string" where
  "rfcleanup pbuf outlines errmsg' =
     ((case pbuf of
         None \<Rightarrow> outlines
       | Some items \<Rightarrow> if outlines = None then free_items items else outlines),
      errmsg')"

definition reformat_c ::
  "(nat \<Rightarrow> string) \<Rightarrow> string \<Rightarrow> nat \<Rightarrow> string list \<Rightarrow> nat \<Rightarrow> nat \<Rightarrow> int \<Rightarrow> nat \<Rightarrow> nat \<Rightarrow> int
   \<Rightarrow> bool \<Rightarrow> bool \<Rightarrow> bool \<Rightarrow> bool \<Rightarrow> bool \<Rightarrow> bool \<Rightarrow> bool \<Rightarrow> char set
   \<Rightarrow> string list option \<times> string" where
  "reformat_c imp bufmsg avail lines afp fs hang prefix suffix width cap fit guess just last'
     Report touch terminalchars =
     (if lines = [] then rfcleanup None None (imp 4)
      else if avail = 0 then rfcleanup None None outofmem
      else case make_words_c (avail - 1) prefix suffix 0 True lines of
        Inl e \<Rightarrow> rfcleanup None None (errmsg_text imp e)
      | Inr (ws0, avail1) \<Rightarrow>
          (case long_words_pass_c avail1 lines (width - int prefix - int suffix) Report
                  (if guess then guess_loop lines cap terminalchars None ws0 else ws0) of
             Inl e \<Rightarrow> rfcleanup None None (errmsg_text imp e)
           | Inr (ws2, avail2) \<Rightarrow>
               (case choose_breaks_c imp ws2 (width - int prefix - int suffix) fit just last' of
                  (msg, ws3) \<Rightarrow>
                    if msg \<noteq> [] then rfcleanup None None msg
                    else if avail2 = 0 then rfcleanup None None bufmsg
                    else
                      (case build_lines_c bufmsg lines afp fs hang prefix suffix
                              (touch_width just touch ws3 (width - int prefix - int suffix))
                              just last' (avail2 - 1) [] 0 ws3 0 of
                         (items, Inl msg') \<Rightarrow> rfcleanup (Some items) None msg'
                       | (items, Inr avail3) \<Rightarrow>
                           if avail3 = 0 then rfcleanup (Some items) None bufmsg
                           else if avail3 = 1 then rfcleanup (Some items) None bufmsg
                           else rfcleanup (Some items) (Some items) []))))"

subsection \<open>The message and the returned pointer\<close>

lemma free_items_None: "free_items items = None"
  by (induction items) simp_all

lemma rfcleanup_NULL: "rfcleanup pbuf None m = (None, m)"
  by (simp add: rfcleanup_def free_items_None split: option.splits)

lemma rfcleanup_array: "rfcleanup (Some items) (Some out) m = (Some out, m)"
  by (simp add: rfcleanup_def)

lemma make_words_c_error:
  assumes "make_words_c avail prefix suffix i b lines = Inl e"
  shows "e = OutOfMemory
         \<or> (\<exists>k < length lines. e = LineTooShort (i + k + 1) prefix suffix (prefix + suffix))"
  using assms
proof (induction lines arbitrary: avail i b)
  case Nil
  then show ?case by simp
next
  case (Cons l ls)
  show ?case
  proof (cases "length l < prefix + suffix")
    case True
    with Cons.prems have "e = LineTooShort (i + 0 + 1) prefix suffix (prefix + suffix)"
      by simp
    then show ?thesis by auto
  next
    case False
    obtain ws b' where lw: "line_words i prefix b prefix
        (take (length l - suffix - prefix) (drop prefix l)) = (ws, b')"
      by (cases "line_words i prefix b prefix (take (length l - suffix - prefix) (drop prefix l))")
    show ?thesis
    proof (cases "avail < length ws")
      case True
      with Cons.prems False lw show ?thesis by simp
    next
      case enough: False
      with Cons.prems False lw
      have "make_words_c (avail - length ws) prefix suffix (i + 1) b' ls = Inl e"
        by (simp split: sum.splits prod.splits)
      from Cons.IH [OF this] show ?thesis
      proof
        assume "e = OutOfMemory"
        then show ?thesis by simp
      next
        assume "\<exists>k < length ls. e = LineTooShort (i + 1 + k + 1) prefix suffix (prefix + suffix)"
        then obtain k where "k < length ls"
            "e = LineTooShort (i + 1 + k + 1) prefix suffix (prefix + suffix)"
          by blast
        then have "Suc k < length (l # ls)
            \<and> e = LineTooShort (i + Suc k + 1) prefix suffix (prefix + suffix)"
          by simp
        then show ?thesis by blast
      qed
    qed
  qed
qed

lemma long_words_pass_c_error:
  "long_words_pass_c avail lines L Report ws = Inl e \<Longrightarrow>
   e = OutOfMemory \<or> (\<exists>s. e = WordTooLong s \<and> length s \<le> errmsg_size - 17)"
  unfolding long_words_pass_c_def split_pass_c_def
  using report_long_excerpt [of lines L ws e]
  by (auto simp: Let_def split: if_splits option.splits)

lemma choose_breaks_c_msg:
  "fst (choose_breaks_c imp ws L fit just last')
     \<in> {[], imp 1, imp 2, imp 3, ''Cannot justify.'' @ [CHR 0x0A]}"
  by (auto simp: choose_breaks_c_def normalbreaks_c_def justbreaks_c_def Let_def
        split: prod.splits)

lemma build_lines_c_msg:
  "build_lines_c bufmsg lines afp fs hang prefix suffix L just last' avail items numout cur w2
     = (items', Inl m) \<Longrightarrow> m = outofmem \<or> m = bufmsg"
proof (induction bufmsg lines afp fs hang prefix suffix L just last' avail items numout cur w2
         rule: build_lines_c.induct)
  case (1 bufmsg lines afp fs hang prefix suffix L just last' avail items numout cur w2)
  show ?case
  proof (cases "int numout < hang \<or> cur \<noteq> []")
    case False
    with "1.prems" show ?thesis by (subst (asm) build_lines_c.simps) simp
  next
    case True
    show ?thesis
    proof (cases "avail = 0 \<or> avail = 1")
      case True
      with \<open>int numout < hang \<or> cur \<noteq> []\<close> "1.prems" show ?thesis
        by (subst (asm) build_lines_c.simps) auto
    next
      case False
      then have a: "avail \<noteq> 0" "avail \<noteq> 1" by simp_all
      from "1.prems" True a have
        "build_lines_c bufmsg lines afp fs hang prefix suffix L just last' (avail - 2)
           (items @ [build_line lines afp fs hang prefix suffix L just last' numout cur w2])
           (Suc numout) (if cur \<noteq> [] then rest_lines cur else [])
           (if cur \<noteq> [] then next_ptr cur else w2) = (items', Inl m)"
        by (subst (asm) build_lines_c.simps) simp
      with "1.IH" [OF True a] show ?thesis by blast
    qed
  qed
qed

text \<open>
  Every way out of \<open>reformat\<close>: \<open>NULL\<close> with a message that is not empty and fits, or an
  array with \<open>errmsg\<close> empty.
\<close>

lemma reformat_c_exits:
  assumes imp: "\<forall>n \<in> {1, 2, 3, 4}. imp n \<noteq> [] \<and> length (imp n) < errmsg_size"
    and buf: "bufmsg \<noteq> [] \<and> length bufmsg < errmsg_size"
    and "length lines < 2 ^ 63" and "prefix + suffix < 2 ^ 31"
  shows "(\<exists>m. reformat_c imp bufmsg avail lines afp fs hang prefix suffix width cap fit guess
                just last' Report touch terminalchars = (None, m)
              \<and> m \<noteq> [] \<and> length m < errmsg_size)
         \<or> (\<exists>out. reformat_c imp bufmsg avail lines afp fs hang prefix suffix width cap fit guess
                just last' Report touch terminalchars = (Some out, []))"
proof -
  let ?L = "width - int prefix - int suffix"
  let ?R = "reformat_c imp bufmsg avail lines afp fs hang prefix suffix width cap fit guess
              just last' Report touch terminalchars"
  have oom: "outofmem \<noteq> [] \<and> length outofmem < errmsg_size"
    by (simp add: outofmem_def errmsg_size_def)
  have i1: "imp 1 \<noteq> [] \<and> length (imp 1) < errmsg_size" using imp by simp
  have i2: "imp 2 \<noteq> [] \<and> length (imp 2) < errmsg_size" using imp by simp
  have i3: "imp 3 \<noteq> [] \<and> length (imp 3) < errmsg_size" using imp by simp
  have i4: "imp 4 \<noteq> [] \<and> length (imp 4) < errmsg_size" using imp by simp
  have fail: ?thesis if "?R = (None, m)" "m \<noteq> [] \<and> length m < errmsg_size" for m
    using that by blast
  show ?thesis
  proof (cases "lines = []")
    case True
    then have "?R = (None, imp 4)" by (simp add: reformat_c_def rfcleanup_NULL)
    then show ?thesis using i4 by (rule fail)
  next
    case ne: False
    show ?thesis
    proof (cases "avail = 0")
      case True
      with ne have "?R = (None, outofmem)" by (simp add: reformat_c_def rfcleanup_NULL)
      then show ?thesis using oom by (rule fail)
    next
      case a0: False
      show ?thesis
      proof (cases "make_words_c (avail - 1) prefix suffix 0 True lines")
        case (Inl e)
        with ne a0 have R: "?R = (None, errmsg_text imp e)"
          by (simp add: reformat_c_def rfcleanup_NULL)
        from make_words_c_error [OF Inl] have "errmsg_text imp e \<noteq> []
            \<and> length (errmsg_text imp e) < errmsg_size"
        proof
          assume "e = OutOfMemory"
          then show ?thesis using oom by simp
        next
          assume "\<exists>k < length lines. e = LineTooShort (0 + k + 1) prefix suffix (prefix + suffix)"
          then obtain k where k: "k < length lines"
              "e = LineTooShort (0 + k + 1) prefix suffix (prefix + suffix)" by blast
          have "length (errmsg_text imp (LineTooShort (0 + k + 1) prefix suffix (prefix + suffix)))
                  \<le> 97"
            using assms(3,4) k(1) by (intro line_too_short_text_length) simp_all
          then show ?thesis using k(2) by (simp add: errmsg_size_def)
        qed
        with R show ?thesis by (rule fail)
      next
        case (Inr r0)
        obtain ws0 avail1 where r0: "r0 = (ws0, avail1)" by (cases r0)
        let ?ws1 = "if guess then guess_loop lines cap terminalchars None ws0 else ws0"
        show ?thesis
        proof (cases "long_words_pass_c avail1 lines ?L Report ?ws1")
          case (Inl e)
          with ne a0 Inr r0 have R: "?R = (None, errmsg_text imp e)"
            by (simp add: reformat_c_def rfcleanup_NULL)
          from long_words_pass_c_error [OF Inl] have "errmsg_text imp e \<noteq> []
              \<and> length (errmsg_text imp e) < errmsg_size"
            using oom by (auto simp: errmsg_size_def)
          with R show ?thesis by (rule fail)
        next
          case lw: (Inr r2)
          obtain ws2 avail2 where r2: "r2 = (ws2, avail2)" by (cases r2)
          obtain msg ws3 where cb: "choose_breaks_c imp ws2 ?L fit just last' = (msg, ws3)"
            by (cases "choose_breaks_c imp ws2 ?L fit just last'")
          show ?thesis
          proof (cases "msg = []")
            case False
            with ne a0 Inr r0 lw r2 cb have R: "?R = (None, msg)"
              by (simp add: reformat_c_def rfcleanup_NULL)
            from choose_breaks_c_msg [of imp ws2 ?L fit just last'] cb False
            have "msg = imp 1 \<or> msg = imp 2 \<or> msg = imp 3
                  \<or> msg = ''Cannot justify.'' @ [CHR 0x0A]"
              by simp
            then have "msg \<noteq> [] \<and> length msg < errmsg_size"
              using i1 i2 i3 by (auto simp: errmsg_size_def)
            with R show ?thesis by (rule fail)
          next
            case m0: True
            show ?thesis
            proof (cases "avail2 = 0")
              case True
              with ne a0 Inr r0 lw r2 cb m0 have "?R = (None, bufmsg)"
                by (simp add: reformat_c_def rfcleanup_NULL)
              then show ?thesis using buf by (rule fail)
            next
              case a2: False
              let ?B = "build_lines_c bufmsg lines afp fs hang prefix suffix
                          (touch_width just touch ws3 ?L) just last' (avail2 - 1) [] 0 ws3 0"
              obtain items r where B: "?B = (items, r)" by (cases ?B)
              show ?thesis
              proof (cases r)
                case (Inl m)
                with ne a0 Inr r0 lw r2 cb m0 a2 B have R: "?R = (None, m)"
                  by (simp add: reformat_c_def rfcleanup_NULL)
                from B Inl have "m = outofmem \<or> m = bufmsg"
                  by (intro build_lines_c_msg [of bufmsg lines afp fs hang prefix suffix
                        "touch_width just touch ws3 ?L" just last' "avail2 - 1" "[]" 0 ws3 0 items])
                     simp
                then have "m \<noteq> [] \<and> length m < errmsg_size" using oom buf by auto
                with R show ?thesis by (rule fail)
              next
                case (Inr avail3)
                show ?thesis
                proof (cases "avail3 = 0 \<or> avail3 = 1")
                  case True
                  with ne a0 \<open>make_words_c (avail - 1) prefix suffix 0 True lines = Inr r0\<close>
                    r0 lw r2 cb m0 a2 B Inr
                  have "?R = (None, bufmsg)"
                    by (auto simp: reformat_c_def rfcleanup_NULL)
                  then show ?thesis using buf by (rule fail)
                next
                  case False
                  with ne a0 \<open>make_words_c (avail - 1) prefix suffix 0 True lines = Inr r0\<close>
                    r0 lw r2 cb m0 a2 B Inr
                  have "?R = (Some items, [])"
                    by (simp add: reformat_c_def rfcleanup_array)
                  then show ?thesis by blast
                qed
              qed
            qed
          qed
        qed
      qed
    qed
  qed
qed

text \<open>
  Claim C9. For every input and every number of calls that succeed, \<open>reformat\<close> returns
  \<open>NULL\<close> exactly when it leaves a non-empty message in \<open>errmsg\<close>; after a non-\<open>NULL\<close>
  return \<open>errmsg\<close> is empty; after a \<open>NULL\<close> return the message and its NUL fit in the
  \<open>errmsg_size = 163\<close> bytes. The hypotheses are the range of the C types of the numbers
  printed (the line number is a \<open>long\<close>, \<open>prefix + suffix\<close> an \<open>int\<close>), and what the
  sources do not hold: that the texts of the impossibility message and of the messages
  of buffer.c are not empty and fit.
\<close>

theorem reformat_errmsg:
  assumes "\<forall>n \<in> {1, 2, 3, 4}. imp n \<noteq> [] \<and> length (imp n) < errmsg_size"
    and "bufmsg \<noteq> [] \<and> length bufmsg < errmsg_size"
    and "length lines < 2 ^ 63" and "prefix + suffix < 2 ^ 31"
  shows
    "(fst (reformat_c imp bufmsg avail lines afp fs hang prefix suffix width cap fit guess just
             last' Report touch terminalchars) = None
      \<longleftrightarrow> snd (reformat_c imp bufmsg avail lines afp fs hang prefix suffix width cap fit guess
                 just last' Report touch terminalchars) \<noteq> [])
     \<and> (fst (reformat_c imp bufmsg avail lines afp fs hang prefix suffix width cap fit guess just
               last' Report touch terminalchars) \<noteq> None
        \<longrightarrow> snd (reformat_c imp bufmsg avail lines afp fs hang prefix suffix width cap fit guess
                   just last' Report touch terminalchars) = [])
     \<and> (fst (reformat_c imp bufmsg avail lines afp fs hang prefix suffix width cap fit guess just
               last' Report touch terminalchars) = None
        \<longrightarrow> length (snd (reformat_c imp bufmsg avail lines afp fs hang prefix suffix width cap fit
                           guess just last' Report touch terminalchars)) < errmsg_size)"
  using reformat_c_exits [OF assms, of avail afp fs hang width cap fit guess just last' Report
          touch terminalchars]
  by auto

subsection \<open>With memory enough\<close>

text \<open>
  When the calls that can fail all succeed, \<open>reformat_c\<close> returns the lines of
  \<open>reformat\<close>.
\<close>

lemma make_words_c_enough:
  "make_words prefix suffix i b lines = Inr ws \<Longrightarrow> length ws \<le> avail \<Longrightarrow>
   make_words_c avail prefix suffix i b lines = Inr (ws, avail - length ws)"
proof (induction lines arbitrary: avail i b ws)
  case Nil
  then show ?case by simp
next
  case (Cons l ls)
  from Cons.prems(1) have long: "\<not> length l < prefix + suffix"
    by (auto split: if_splits)
  obtain ws1 b' where lw: "line_words i prefix b prefix
      (take (length l - suffix - prefix) (drop prefix l)) = (ws1, b')"
    by (cases "line_words i prefix b prefix (take (length l - suffix - prefix) (drop prefix l))")
  from Cons.prems(1) long lw obtain ws' where
      r: "make_words prefix suffix (i + 1) b' ls = Inr ws'" and ws: "ws = ws1 @ ws'"
    by (auto split: sum.splits)
  from Cons.prems(2) ws have "length ws' \<le> avail - length ws1" by simp
  from Cons.IH [OF r this]
  have "make_words_c (avail - length ws1) prefix suffix (i + 1) b' ls
          = Inr (ws', avail - length ws1 - length ws')" .
  with long lw ws Cons.prems(2) show ?case by simp
qed

lemma long_words_pass_c_enough:
  "long_words_pass lines L Report ws = Inr ws2 \<Longrightarrow> length ws2 - length ws \<le> avail \<Longrightarrow>
   long_words_pass_c avail lines L Report ws = Inr (ws2, avail - (length ws2 - length ws))"
  by (auto simp: long_words_pass_def long_words_pass_c_def split_pass_def split_pass_c_def
        Let_def split: if_splits option.splits)

lemma choose_breaks_c_ok:
  "choose_breaks ws L fit just last' = Inr ws3 \<Longrightarrow>
   choose_breaks_c imp ws L fit just last' = ([], ws3)"
  by (auto simp: choose_breaks_def choose_breaks_c_def normalbreaks_def normalbreaks_c_def
        justbreaks_def justbreaks_c_def Let_def split: if_splits prod.splits)

lemma build_lines_c_enough:
  "2 * length (build_lines lines afp fs hang prefix suffix L just last' numout cur w2) \<le> avail
   \<Longrightarrow> build_lines_c bufmsg lines afp fs hang prefix suffix L just last' avail items numout
         cur w2
       = (items @ build_lines lines afp fs hang prefix suffix L just last' numout cur w2,
          Inr (avail - 2 * length (build_lines lines afp fs hang prefix suffix L just last'
                                     numout cur w2)))"
proof (induction bufmsg lines afp fs hang prefix suffix L just last' avail items numout cur w2
         rule: build_lines_c.induct)
  case (1 bufmsg lines afp fs hang prefix suffix L just last' avail items numout cur w2)
  show ?case
  proof (cases "int numout < hang \<or> cur \<noteq> []")
    case False
    then have "build_lines lines afp fs hang prefix suffix L just last' numout cur w2 = []"
      by (subst build_lines.simps) simp
    with False show ?thesis by (subst build_lines_c.simps) simp
  next
    case True
    let ?cur' = "if cur \<noteq> [] then rest_lines cur else []"
    let ?w2' = "if cur \<noteq> [] then next_ptr cur else w2"
    let ?l = "build_line lines afp fs hang prefix suffix L just last' numout cur w2"
    let ?rest = "build_lines lines afp fs hang prefix suffix L just last' (Suc numout) ?cur' ?w2'"
    have bl: "build_lines lines afp fs hang prefix suffix L just last' numout cur w2 = ?l # ?rest"
      using True by (subst build_lines.simps) simp
    with "1.prems" have a: "avail \<noteq> 0" "avail \<noteq> 1" and r: "2 * length ?rest \<le> avail - 2"
      by simp_all
    from "1.IH" [OF True a r]
    have "build_lines_c bufmsg lines afp fs hang prefix suffix L just last' (avail - 2)
            (items @ [?l]) (Suc numout) ?cur' ?w2'
          = ((items @ [?l]) @ ?rest, Inr (avail - 2 - 2 * length ?rest))" .
    moreover have "build_lines_c bufmsg lines afp fs hang prefix suffix L just last' avail items
                     numout cur w2
          = build_lines_c bufmsg lines afp fs hang prefix suffix L just last' (avail - 2)
            (items @ [?l]) (Suc numout) ?cur' ?w2'"
      using True a by (subst build_lines_c.simps) simp
    ultimately show ?thesis using bl by simp
  qed
qed

lemma reformat_c_enough:
  assumes "reformat lines afp fs hang prefix suffix width cap fit guess just last' Report touch
             terminalchars = Inr out"
  shows "\<exists>n. \<forall>avail \<ge> n. reformat_c imp bufmsg avail lines afp fs hang prefix suffix width
                cap fit guess just last' Report touch terminalchars = (Some out, [])"
proof -
  let ?L = "width - int prefix - int suffix"
  from reformat_Inr [OF assms] obtain ws0 ws2 ws3 where ne: "lines \<noteq> []"
    and mw: "make_words prefix suffix 0 True lines = Inr ws0"
    and lw: "long_words_pass lines ?L Report
               (if guess then guess_loop lines cap terminalchars None ws0 else ws0) = Inr ws2"
    and cb: "choose_breaks ws2 ?L fit just last' = Inr ws3"
    and out: "out = build_lines lines afp fs hang prefix suffix (touch_width just touch ws3 ?L)
                      just last' 0 ws3 0"
    by blast
  let ?ws1 = "if guess then guess_loop lines cap terminalchars None ws0 else ws0"
  let ?n1 = "length ws0"
  let ?n2 = "length ws2 - length ?ws1"
  let ?n3 = "2 * length out"
  have "reformat_c imp bufmsg avail lines afp fs hang prefix suffix width
          cap fit guess just last' Report touch terminalchars = (Some out, [])"
    if a: "1 + ?n1 + ?n2 + 1 + ?n3 + 2 \<le> avail" for avail
  proof -
    have m: "make_words_c (avail - 1) prefix suffix 0 True lines = Inr (ws0, avail - 1 - ?n1)"
      using mw a by (intro make_words_c_enough) simp_all
    have l: "long_words_pass_c (avail - 1 - ?n1) lines ?L Report ?ws1
               = Inr (ws2, avail - 1 - ?n1 - ?n2)"
      using lw a by (intro long_words_pass_c_enough) simp_all
    have c: "choose_breaks_c imp ws2 ?L fit just last' = ([], ws3)"
      using cb by (rule choose_breaks_c_ok)
    have "2 * length (build_lines lines afp fs hang prefix suffix (touch_width just touch ws3 ?L)
                      just last' 0 ws3 0) \<le> avail - 1 - ?n1 - ?n2 - 1"
      using a out by simp
    from build_lines_c_enough [OF this, of bufmsg "[]"]
    have b: "build_lines_c bufmsg lines afp fs hang prefix suffix
               (touch_width just touch ws3 ?L) just last' (avail - 1 - ?n1 - ?n2 - 1) [] 0 ws3 0
             = (out, Inr (avail - 1 - ?n1 - ?n2 - 1 - ?n3))"
      using out by simp
    have a0: "avail \<noteq> 0" "avail - 1 - ?n1 - ?n2 \<noteq> 0"
      "avail - 1 - ?n1 - ?n2 - 1 - ?n3 \<noteq> 0" "avail - 1 - ?n1 - ?n2 - 1 - ?n3 \<noteq> 1"
      using a by simp_all
    show ?thesis
      unfolding reformat_c_def
      using ne a0 by (simp only: m l c b rfcleanup_array if_False sum.case prod.case simp_thms)
  qed
  then show ?thesis by blast
qed

text \<open>
  And an array that \<open>reformat_c\<close> returns holds the lines of \<open>reformat\<close>, provided the
  impossibility messages are not empty (else \<open>if (*errmsg)\<close> would miss a failure of the
  breaker).
\<close>

lemma make_words_c_Inr:
  "make_words_c avail prefix suffix i b lines = Inr (ws, a) \<Longrightarrow>
   make_words prefix suffix i b lines = Inr ws"
proof (induction lines arbitrary: avail i b ws a)
  case Nil
  then show ?case by simp
next
  case (Cons l ls)
  from Cons.prems have long: "\<not> length l < prefix + suffix"
    by (auto split: if_splits)
  obtain ws1 b' where lw: "line_words i prefix b prefix
      (take (length l - suffix - prefix) (drop prefix l)) = (ws1, b')"
    by (cases "line_words i prefix b prefix (take (length l - suffix - prefix) (drop prefix l))")
  from Cons.prems long lw obtain ws' where
      r: "make_words_c (avail - length ws1) prefix suffix (i + 1) b' ls = Inr (ws', a)"
      and ws: "ws = ws1 @ ws'"
    by (auto split: if_splits sum.splits prod.splits)
  from Cons.IH [OF r] have "make_words prefix suffix (i + 1) b' ls = Inr ws'" .
  with long lw ws show ?case by simp
qed

lemma long_words_pass_c_Inr:
  "long_words_pass_c avail lines L Report ws = Inr (ws2, a) \<Longrightarrow>
   long_words_pass lines L Report ws = Inr ws2"
  by (auto simp: long_words_pass_def long_words_pass_c_def split_pass_def split_pass_c_def
        Let_def split: if_splits option.splits)

lemma choose_breaks_c_empty:
  assumes "imp 1 \<noteq> []" "imp 2 \<noteq> []" "imp 3 \<noteq> []"
    and "choose_breaks_c imp ws L fit just last' = ([], ws3)"
  shows "choose_breaks ws L fit just last' = Inr ws3"
  using assms
  by (auto simp: choose_breaks_def choose_breaks_c_def normalbreaks_def normalbreaks_c_def
        justbreaks_def justbreaks_c_def Let_def split: if_splits prod.splits)

lemma build_lines_c_Inr:
  "build_lines_c bufmsg lines afp fs hang prefix suffix L just last' avail items numout cur w2
     = (items', Inr a) \<Longrightarrow>
   items' = items @ build_lines lines afp fs hang prefix suffix L just last' numout cur w2"
proof (induction bufmsg lines afp fs hang prefix suffix L just last' avail items numout cur w2
         rule: build_lines_c.induct)
  case (1 bufmsg lines afp fs hang prefix suffix L just last' avail items numout cur w2)
  show ?case
  proof (cases "int numout < hang \<or> cur \<noteq> []")
    case False
    then have "build_lines lines afp fs hang prefix suffix L just last' numout cur w2 = []"
      by (subst build_lines.simps) simp
    moreover from "1.prems" False have "items' = items"
      by (subst (asm) build_lines_c.simps) simp
    ultimately show ?thesis by simp
  next
    case True
    let ?cur' = "if cur \<noteq> [] then rest_lines cur else []"
    let ?w2' = "if cur \<noteq> [] then next_ptr cur else w2"
    let ?l = "build_line lines afp fs hang prefix suffix L just last' numout cur w2"
    have bl: "build_lines lines afp fs hang prefix suffix L just last' numout cur w2
                = ?l # build_lines lines afp fs hang prefix suffix L just last' (Suc numout)
                         ?cur' ?w2'"
      using True by (subst build_lines.simps) simp
    have "avail \<noteq> 0 \<and> avail \<noteq> 1"
      using "1.prems" True by (subst (asm) build_lines_c.simps) (auto split: if_splits)
    then have a: "avail \<noteq> 0" "avail \<noteq> 1" by simp_all
    from "1.prems" True a have
      "build_lines_c bufmsg lines afp fs hang prefix suffix L just last' (avail - 2)
         (items @ [?l]) (Suc numout) ?cur' ?w2' = (items', Inr a)"
      by (subst (asm) build_lines_c.simps) simp
    from "1.IH" [OF True a this] bl show ?thesis by simp
  qed
qed

lemma reformat_c_array:
  assumes imp: "imp 1 \<noteq> []" "imp 2 \<noteq> []" "imp 3 \<noteq> []"
    and r: "reformat_c imp bufmsg avail lines afp fs hang prefix suffix width cap fit guess just
              last' Report touch terminalchars = (Some out, m)"
  shows "reformat lines afp fs hang prefix suffix width cap fit guess just last' Report touch
           terminalchars = Inr out \<and> m = []"
proof -
  let ?L = "width - int prefix - int suffix"
  note N = rfcleanup_NULL
  from r have ne: "lines \<noteq> []" and a0: "avail \<noteq> 0"
    by (auto simp: reformat_c_def N split: if_splits)
  from r ne a0 obtain ws0 avail1 where
      mw: "make_words_c (avail - 1) prefix suffix 0 True lines = Inr (ws0, avail1)"
    by (cases "make_words_c (avail - 1) prefix suffix 0 True lines")
       (auto simp: reformat_c_def N)
  let ?ws1 = "if guess then guess_loop lines cap terminalchars None ws0 else ws0"
  from r ne a0 mw obtain ws2 avail2 where
      lw: "long_words_pass_c avail1 lines ?L Report ?ws1 = Inr (ws2, avail2)"
    by (cases "long_words_pass_c avail1 lines ?L Report ?ws1")
       (auto simp: reformat_c_def N)
  obtain msg ws3 where cb: "choose_breaks_c imp ws2 ?L fit just last' = (msg, ws3)"
    by (cases "choose_breaks_c imp ws2 ?L fit just last'")
  from r ne a0 mw lw cb have m0: "msg = []" and a2: "avail2 \<noteq> 0"
    by (auto simp: reformat_c_def N split: if_splits)
  let ?B = "build_lines_c bufmsg lines afp fs hang prefix suffix
              (touch_width just touch ws3 ?L) just last' (avail2 - 1) [] 0 ws3 0"
  obtain items res where B: "?B = (items, res)" by (cases ?B)
  from r ne a0 mw lw cb m0 a2 B obtain avail3 where res: "res = Inr avail3"
    by (cases res) (auto simp: reformat_c_def N)
  from r ne a0 mw lw cb m0 a2 B res have fin: "out = items \<and> m = []"
    by (auto simp: reformat_c_def N rfcleanup_array split: if_splits)
  from B res have "items = [] @ build_lines lines afp fs hang prefix suffix
                     (touch_width just touch ws3 ?L) just last' 0 ws3 0"
    by (intro build_lines_c_Inr) simp
  with fin have out: "out = build_lines lines afp fs hang prefix suffix
                     (touch_width just touch ws3 ?L) just last' 0 ws3 0"
    by simp
  have "make_words prefix suffix 0 True lines = Inr ws0"
    using mw by (rule make_words_c_Inr)
  moreover have "long_words_pass lines ?L Report ?ws1 = Inr ws2"
    using lw by (rule long_words_pass_c_Inr)
  moreover have "choose_breaks ws2 ?L fit just last' = Inr ws3"
    using imp cb m0 by (intro choose_breaks_c_empty [of imp]) simp_all
  ultimately show ?thesis using ne out fin by (simp add: reformat_def)
qed

text \<open>A text to stand for the impossibility message in the examples.\<close>

definition imp_text :: "nat \<Rightarrow> string" where
  "imp_text n = ''Impossibility #'' @ dec n @ '' has occurred.'' @ [CHR 0x0A]"

theorem reformat_errmsg_witness:
  "reformat_c imp_text outofmem 12 [''The quick brown fox jumps'', ''over the lazy dog.'']
       0 0 0 0 0 15 False False False False False False False {}
     = (None, outofmem)
   \<and> fst (reformat_c imp_text outofmem 12 [''The quick brown fox jumps'', ''over the lazy dog.'']
            0 0 0 0 0 15 False False False False False False False {}) = None
   \<and> snd (reformat_c imp_text outofmem 12 [''The quick brown fox jumps'', ''over the lazy dog.'']
            0 0 0 0 0 15 False False False False False False False {}) \<noteq> []
   \<and> length (snd (reformat_c imp_text outofmem 12
                     [''The quick brown fox jumps'', ''over the lazy dog.'']
                     0 0 0 0 0 15 False False False False False False False {})) < errmsg_size"
proof -
  have h1: "\<forall>n \<in> {1, 2, 3, 4}. imp_text n \<noteq> [] \<and> length (imp_text n) < errmsg_size"
    by (simp add: imp_text_def dec.simps errmsg_size_def)
  have h2: "outofmem \<noteq> [] \<and> length outofmem < errmsg_size"
    by (simp add: outofmem_def errmsg_size_def)
  have h3: "length [''The quick brown fox jumps'', ''over the lazy dog.''] < 2 ^ 63" by simp
  have h4: "(0::nat) + 0 < 2 ^ 31" by simp
  have r: "reformat_c imp_text outofmem 12 [''The quick brown fox jumps'', ''over the lazy dog.'']
       0 0 0 0 0 15 False False False False False False False {}
     = (None, outofmem)"
    by code_simp
  then have none: "fst (reformat_c imp_text outofmem 12
                     [''The quick brown fox jumps'', ''over the lazy dog.'']
                     0 0 0 0 0 15 False False False False False False False {}) = None"
    by simp
  from reformat_errmsg [OF h1 h2 h3 h4, of 12 0 0 0 15 False False False False False False False
         "{}"] none r
  show ?thesis by blast
qed

subsection \<open>The result for a paragraph without words\<close>

text \<open>
  Claim C10 (as amended). For a non-empty paragraph whose lines are all at least
  \<open>prefix + suffix\<close> long and whose body regions hold only spaces, \<open>reformat\<close> with
  \<open>hang = 0\<close> succeeds and returns an array of no line.
\<close>

theorem reformat_no_words:
  assumes "lines \<noteq> []"
    and "\<forall>l \<in> set lines. prefix + suffix \<le> length l
           \<and> (\<forall>c \<in> set (body_region prefix suffix l). c = CHR '' '')"
    and "hang = 0"
  shows "reformat lines afp fs hang prefix suffix width cap fit guess just last' Report touch
           terminalchars = Inr []"
proof -
  have mw: "make_words prefix suffix 0 True lines = Inr []"
    using assms(2) by (rule make_words_blank)
  have bl: "build_lines lines afp fs 0 prefix suffix L j last' 0 [] 0 = []" for L j
    by (subst build_lines.simps) simp
  show ?thesis
    using assms(1,3) mw bl
    by (simp add: reformat_def long_words_pass_def choose_breaks_def
          split_pass_def normalbreaks_def justbreaks_def)
qed

theorem reformat_no_words_witness:
  "reformat [''>    #'', ''> #''] 2 1 0 2 1 10 False False False False False False False {} = Inr []"
proof -
  have "\<forall>l \<in> set [''>    #'', ''> #'']. 2 + 1 \<le> length l
           \<and> (\<forall>c \<in> set (body_region 2 1 l). c = CHR '' '')"
    by (simp add: body_region_def)
  then show ?thesis
    by (intro reformat_no_words) simp_all
qed

text \<open>
  The claim as written does not ask that the lines be \<open>prefix + suffix\<close> long. The line
  \<open>>\<close> with \<open>prefix = 2\<close> and \<open>suffix = 1\<close> has an empty body region, so all of its bytes
  are spaces, and \<open>reformat\<close> fails with the line-too-short error.
\<close>

theorem reformat_no_words_counterexample:
  "[''>''] \<noteq> []
   \<and> list_all (\<lambda>c. c = CHR '' '') (body_region 2 1 ''>'')
   \<and> reformat [''>''] 0 0 0 2 1 10 False False False False False False False {}
       = Inl (LineTooShort 1 2 1 3)"
proof -
  have "reformat [''>''] 0 0 0 2 1 10 False False False False False False False {}
          = Inl (LineTooShort 1 2 1 3)"
    by code_simp
  then show ?thesis by (simp add: body_region_def)
qed

text \<open>With the four calls that can fail succeeding, the caller gets the empty array.\<close>

lemma reformat_c_no_words:
  assumes "lines \<noteq> []"
    and "\<forall>l \<in> set lines. prefix + suffix \<le> length l
           \<and> (\<forall>c \<in> set (body_region prefix suffix l). c = CHR '' '')"
    and "hang = 0" and "4 \<le> avail"
  shows "reformat_c imp bufmsg avail lines afp fs hang prefix suffix width cap fit guess just
           last' Report touch terminalchars = (Some [], [])"
proof -
  have "make_words prefix suffix 0 True lines = Inr []"
    using assms(2) by (rule make_words_blank)
  then have mw: "make_words_c (avail - 1) prefix suffix 0 True lines = Inr ([], avail - 1)"
    using make_words_c_enough [of prefix suffix 0 True lines "[]" "avail - 1"] by simp
  have bl: "build_lines_c bufmsg lines afp fs 0 prefix suffix L j last' a [] 0 [] 0 = ([], Inr a)"
    for L j a
    by (subst build_lines_c.simps) simp
  have a: "avail \<noteq> 0" "avail - 1 \<noteq> 0" "avail - 1 - 1 \<noteq> 0" "avail - 1 - 1 \<noteq> 1"
    using assms(4) by simp_all
  show ?thesis
    using assms(1,3) mw bl a
    by (simp add: reformat_c_def long_words_pass_c_def choose_breaks_c_def
          split_pass_c_def normalbreaks_c_def justbreaks_c_def rfcleanup_array
             del: One_nat_def)
qed

subsection \<open>The length of a line\<close>

text \<open>
  A line that starts with \<open>w\<close> and goes on with \<open>ws\<close> has the length the loops compute:
  \<open>w->length\<close>, then \<open>1 + isshifted(w2) + w2->length\<close> for each further word.
\<close>

fun linelen_of :: "word list \<Rightarrow> int" where
  "linelen_of [] = 0"
| "linelen_of (w # ws) = add_words (int (wlength w)) ws"

definition wkey :: "word \<Rightarrow> nat \<times> bool" where
  "wkey w = (wlength w, isshifted w)"

lemma join_len_pos [simp]: "0 < join_len w"
  by (simp add: join_len_def add_pos_nonneg)

lemma joins_nonneg [simp]: "0 \<le> sum_list (map join_len ws)"
  by (induction ws) (simp_all add: add_nonneg_nonneg less_imp_le)

lemma add_words_sum: "add_words a ws = a + sum_list (map join_len ws)"
  by (induction ws arbitrary: a) simp_all

lemma linelen_of_Cons: "linelen_of (w # ws) = int (wlength w) + sum_list (map join_len ws)"
  by (simp add: add_words_sum)

lemma linelen_of_nonneg [simp]: "0 \<le> linelen_of ws"
  by (cases ws) (simp_all add: add_words_sum)

lemma linelen_of_append:
  "pre \<noteq> [] \<Longrightarrow> linelen_of (pre @ ws) = linelen_of pre + sum_list (map join_len ws)"
  by (cases pre) (simp_all add: add_words_sum)

lemma linelen_of_prefix_le: "linelen_of pre \<le> linelen_of (pre @ ws)"
proof (cases pre)
  case Nil
  then show ?thesis by simp
next
  case (Cons a list)
  then have "linelen_of (pre @ ws) = linelen_of pre + sum_list (map join_len ws)"
    by (intro linelen_of_append) simp
  then show ?thesis using joins_nonneg [of ws] by linarith
qed

lemma linelen_of_take_le: "linelen_of (take k ws) \<le> linelen_of ws"
  using linelen_of_prefix_le [of "take k ws" "drop k ws"] by simp

lemma wlength_le_join: "int (wlength w) \<le> join_len w"
  by (simp add: join_len_def)

lemma wlength_le_joins: "w \<in> set ws \<Longrightarrow> int (wlength w) \<le> sum_list (map join_len ws)"
proof (induction ws)
  case Nil
  then show ?case by simp
next
  case (Cons a ws)
  show ?case
  proof (cases "w = a")
    case True
    have "int (wlength a) \<le> join_len a" by (rule wlength_le_join)
    also have "\<dots> \<le> join_len a + sum_list (map join_len ws)" by simp
    finally show ?thesis using True by simp
  next
    case False
    with Cons have "int (wlength w) \<le> sum_list (map join_len ws)" by simp
    also have "\<dots> \<le> join_len a + sum_list (map join_len ws)"
      using join_len_pos [of a] by linarith
    finally show ?thesis by simp
  qed
qed

lemma wlength_le_linelen: "w \<in> set ws \<Longrightarrow> int (wlength w) \<le> linelen_of ws"
proof (cases ws)
  case Nil
  then show "w \<in> set ws \<Longrightarrow> int (wlength w) \<le> linelen_of ws" by simp
next
  case (Cons a list)
  assume "w \<in> set ws"
  then consider "w = a" | "w \<in> set list" using Cons by auto
  then show "int (wlength w) \<le> linelen_of ws"
  proof cases
    case 1
    then show ?thesis using Cons by (simp add: add_words_sum)
  next
    case 2
    from wlength_le_joins [OF 2] show ?thesis
      using Cons by (simp add: add_words_sum)
  qed
qed

lemma joins_cong: "map wkey a = map wkey b \<Longrightarrow> map join_len a = map join_len b"
proof (induction a arbitrary: b)
  case Nil
  then show ?case by simp
next
  case (Cons x a)
  then obtain y b' where b: "b = y # b'" by (cases b) auto
  with Cons.prems have k: "wkey x = wkey y" "map wkey a = map wkey b'" by simp_all
  from Cons.IH [OF k(2)] have "map join_len a = map join_len b'" .
  moreover have "join_len x = join_len y"
    using k(1) by (simp add: join_len_def wkey_def)
  ultimately show ?case using b by simp
qed

lemma linelen_of_cong: "map wkey a = map wkey b \<Longrightarrow> linelen_of a = linelen_of b"
proof (cases a)
  case Nil
  then show "map wkey a = map wkey b \<Longrightarrow> linelen_of a = linelen_of b" by simp
next
  case (Cons x a')
  assume eq: "map wkey a = map wkey b"
  with Cons obtain y b' where b: "b = y # b'" by (cases b) auto
  with eq Cons have k: "wkey x = wkey y" "map wkey a' = map wkey b'" by simp_all
  from k(1) have "wlength x = wlength y" by (simp add: wkey_def)
  moreover from k(2) have "map join_len a' = map join_len b'" by (rule joins_cong)
  ultimately show "linelen_of a = linelen_of b"
    using Cons b by (simp add: add_words_sum)
qed

subsection \<open>The inner loop of simplebreaks\<close>

lemma sb_candidate_wkey [simp]: "wkey (sb_candidate linelen w2 ptr w1) = wkey w1"
  by (simp add: sb_candidate_def Let_def wkey_def)

lemma sb_candidate_score:
  "score (sb_candidate linelen w2 ptr w1) = max (score w1) (min linelen (score w2))"
  by (simp add: sb_candidate_def Let_def max_def min_def)

lemma sb_inner_wkey [simp]: "wkey (sb_inner L linelen w1 rest) = wkey w1"
  by (induction rest arbitrary: linelen w1) simp_all

lemma sb_inner_score_ge: "score w1 \<le> score (sb_inner L linelen w1 rest)"
proof (induction rest arbitrary: linelen w1)
  case Nil
  then show ?case by simp
next
  case (Cons w2 rest)
  show ?case
  proof (cases "linelen \<le> L")
    case False
    then show ?thesis by simp
  next
    case True
    have "score w1 \<le> score (sb_candidate linelen w2 (Suc (length rest)) w1)"
      by (simp add: sb_candidate_score)
    also have "\<dots> \<le> score (sb_inner L (linelen + join_len w2)
                            (sb_candidate linelen w2 (Suc (length rest)) w1) rest)"
      by (rule Cons.IH)
    finally show ?thesis using True by simp
  qed
qed

lemma sb_inner_candidate:
  "j < length rest \<Longrightarrow> linelen + sum_list (map join_len (take j rest)) \<le> L \<Longrightarrow>
   min (linelen + sum_list (map join_len (take j rest))) (score (rest ! j))
     \<le> score (sb_inner L linelen w1 rest)"
proof (induction rest arbitrary: linelen w1 j)
  case Nil
  then show ?case by simp
next
  case (Cons w2 rest)
  have "linelen \<le> linelen + sum_list (map join_len (take j (w2 # rest)))" by simp
  with Cons.prems have fit: "linelen \<le> L" by linarith
  define w1' where "w1' = sb_candidate linelen w2 (Suc (length rest)) w1"
  have step: "sb_inner L linelen w1 (w2 # rest) = sb_inner L (linelen + join_len w2) w1' rest"
    using fit by (simp add: w1'_def)
  show ?case
  proof (cases j)
    case 0
    have "min linelen (score w2) \<le> score w1'"
      by (simp add: w1'_def sb_candidate_score)
    also have "\<dots> \<le> score (sb_inner L (linelen + join_len w2) w1' rest)"
      by (rule sb_inner_score_ge)
    finally show ?thesis using 0 step by simp
  next
    case (Suc j')
    have l: "linelen + sum_list (map join_len (take j (w2 # rest)))
             = linelen + join_len w2 + sum_list (map join_len (take j' rest))"
      using Suc by simp
    have "min (linelen + join_len w2 + sum_list (map join_len (take j' rest))) (score (rest ! j'))
            \<le> score (sb_inner L (linelen + join_len w2) w1' rest)"
      using Cons.prems Suc l by (intro Cons.IH) simp_all
    then show ?thesis using Suc step l by simp
  qed
qed

lemma sb_inner_attained:
  "score (sb_inner L linelen w1 rest) = score w1
   \<or> (\<exists>j < length rest. linelen + sum_list (map join_len (take j rest)) \<le> L
        \<and> score (sb_inner L linelen w1 rest)
            = min (linelen + sum_list (map join_len (take j rest))) (score (rest ! j)))"
proof (induction rest arbitrary: linelen w1)
  case Nil
  then show ?case by simp
next
  case (Cons w2 rest)
  show ?case
  proof (cases "linelen \<le> L")
    case False
    then show ?thesis by simp
  next
    case fit: True
    define w1' where "w1' = sb_candidate linelen w2 (Suc (length rest)) w1"
    have step: "sb_inner L linelen w1 (w2 # rest) = sb_inner L (linelen + join_len w2) w1' rest"
      using fit by (simp add: w1'_def)
    have sc: "score w1' = max (score w1) (min linelen (score w2))"
      by (simp add: w1'_def sb_candidate_score)
    from Cons.IH [of "linelen + join_len w2" w1'] consider
        (same) "score (sb_inner L (linelen + join_len w2) w1' rest) = score w1'"
      | (later) j where "j < length rest"
          "linelen + join_len w2 + sum_list (map join_len (take j rest)) \<le> L"
          "score (sb_inner L (linelen + join_len w2) w1' rest)
             = min (linelen + join_len w2 + sum_list (map join_len (take j rest))) (score (rest ! j))"
      by blast
    then show ?thesis
    proof cases
      case same
      show ?thesis
      proof (cases "score w1' = score w1")
        case True
        with same step show ?thesis by simp
      next
        case False
        with sc have "score w1' = min linelen (score w2)" by (simp add: max_def split: if_splits)
        with same step fit have "0 < length (w2 # rest)
          \<and> linelen + sum_list (map join_len (take 0 (w2 # rest))) \<le> L
          \<and> score (sb_inner L linelen w1 (w2 # rest))
              = min (linelen + sum_list (map join_len (take 0 (w2 # rest)))) (score ((w2 # rest) ! 0))"
          by simp
        then show ?thesis by blast
      qed
    next
      case later
      have l: "linelen + sum_list (map join_len (take (Suc j) (w2 # rest)))
               = linelen + join_len w2 + sum_list (map join_len (take j rest))"
        by simp
      from later step l have "Suc j < length (w2 # rest)
          \<and> linelen + sum_list (map join_len (take (Suc j) (w2 # rest))) \<le> L
          \<and> score (sb_inner L linelen w1 (w2 # rest))
              = min (linelen + sum_list (map join_len (take (Suc j) (w2 # rest))))
                    (score ((w2 # rest) ! Suc j))"
        by simp
      then show ?thesis by blast
    qed
  qed
qed

subsection \<open>Breaking a list of words into lines\<close>

text \<open>
  A breaking of \<open>ws\<close> for the width \<open>L\<close>: non-empty lines, in order, none longer than \<open>L\<close>.
  The counted lines are all of them if \<open>last\<close>, all but the final one otherwise. The
  value of a breaking is the length of its shortest counted line, and \<open>L\<close> when no line
  is counted.
\<close>

definition breaking :: "int \<Rightarrow> word list \<Rightarrow> word list list \<Rightarrow> bool" where
  "breaking L ws bs \<longleftrightarrow> concat bs = ws \<and> (\<forall>b \<in> set bs. b \<noteq> [] \<and> linelen_of b \<le> L)"

definition counted :: "bool \<Rightarrow> word list list \<Rightarrow> word list list" where
  "counted last' bs = (if last' then bs else butlast bs)"

definition breaking_value :: "int \<Rightarrow> bool \<Rightarrow> word list list \<Rightarrow> int" where
  "breaking_value L last' bs =
     (if counted last' bs = [] then L else Min (set (map linelen_of (counted last' bs))))"

lemma breaking_Nil [simp]: "breaking L ws [] \<longleftrightarrow> ws = []"
  by (auto simp: breaking_def)

lemma breaking_Cons:
  "breaking L ws (b # bs) \<longleftrightarrow>
     b \<noteq> [] \<and> linelen_of b \<le> L \<and> take (length b) ws = b \<and> length b \<le> length ws
     \<and> breaking L (drop (length b) ws) bs"
proof
  assume a: "breaking L ws (b # bs)"
  then have ws: "ws = b @ concat bs" by (simp add: breaking_def)
  with a show "b \<noteq> [] \<and> linelen_of b \<le> L \<and> take (length b) ws = b \<and> length b \<le> length ws
     \<and> breaking L (drop (length b) ws) bs"
    by (simp add: breaking_def)
next
  assume a: "b \<noteq> [] \<and> linelen_of b \<le> L \<and> take (length b) ws = b \<and> length b \<le> length ws
     \<and> breaking L (drop (length b) ws) bs"
  then have "concat bs = drop (length b) ws" by (simp add: breaking_def)
  with a have "b @ concat bs = ws"
    by (metis append_take_drop_id)
  with a show "breaking L ws (b # bs)" by (simp add: breaking_def)
qed

lemma breaking_single: "ws \<noteq> [] \<Longrightarrow> linelen_of ws \<le> L \<Longrightarrow> breaking L ws [ws]"
  by (simp add: breaking_def)

lemma breaking_value_single: "breaking_value L last' [b] = (if last' then linelen_of b else L)"
  by (simp add: breaking_value_def counted_def)

lemma breaking_value_Cons:
  assumes "bs \<noteq> []" and "linelen_of b \<le> L"
  shows "breaking_value L last' (b # bs) = min (linelen_of b) (breaking_value L last' bs)"
proof (cases last')
  case True
  have "Min (set (map linelen_of (b # bs)))
        = min (linelen_of b) (Min (set (map linelen_of bs)))"
    using assms(1) by (simp add: Min_insert)
  with True assms(1) show ?thesis
    by (simp add: breaking_value_def counted_def)
next
  case False
  show ?thesis
  proof (cases "butlast bs = []")
    case True
    with False assms show ?thesis
      by (simp add: breaking_value_def counted_def min_def)
  next
    case nonempty: False
    have "Min (set (map linelen_of (b # butlast bs)))
          = min (linelen_of b) (Min (set (map linelen_of (butlast bs))))"
      using nonempty by (simp add: Min_insert)
    with False nonempty assms(1) show ?thesis
      by (simp add: breaking_value_def counted_def)
  qed
qed

lemma breaking_value_le_width:
  "breaking L ws bs \<Longrightarrow> breaking_value L last' bs \<le> L"
proof (cases "counted last' bs = []")
  case True
  then show ?thesis by (simp add: breaking_value_def)
next
  case False
  assume br: "breaking L ws bs"
  from False obtain b where b: "b \<in> set (counted last' bs)"
    by (cases "counted last' bs") auto
  then have "b \<in> set bs"
    by (auto simp: counted_def dest: in_set_butlastD split: if_splits)
  with br have "linelen_of b \<le> L" by (simp add: breaking_def)
  moreover have "Min (set (map linelen_of (counted last' bs))) \<le> linelen_of b"
    using b by (intro Min_le) simp_all
  ultimately show ?thesis using False by (simp add: breaking_value_def)
qed

lemma breaking_value_nonneg:
  "0 \<le> L \<Longrightarrow> 0 \<le> breaking_value L last' bs"
proof (cases "counted last' bs = []")
  case True
  then show "0 \<le> L \<Longrightarrow> 0 \<le> breaking_value L last' bs" by (simp add: breaking_value_def)
next
  case False
  then have "Min (set (map linelen_of (counted last' bs))) \<in> set (map linelen_of (counted last' bs))"
    by (intro Min_in) simp_all
  then have "0 \<le> Min (set (map linelen_of (counted last' bs)))"
    by auto
  with False show ?thesis by (simp add: breaking_value_def)
qed

lemma breaking_value_last_le:
  assumes "breaking L ws bs" and "ws \<noteq> []"
  shows "breaking_value L True bs \<le> linelen_of ws"
proof -
  from assms obtain b bs' where bs: "bs = b # bs'" by (cases bs) auto
  with assms(1) have "take (length b) ws = b" by (simp add: breaking_Cons)
  then have "linelen_of b \<le> linelen_of ws"
    using linelen_of_take_le [of "length b" ws] by simp
  moreover have "Min (set (map linelen_of (b # bs'))) \<le> linelen_of b"
    by (intro Min_le) simp_all
  ultimately have "Min (set (map linelen_of (b # bs'))) \<le> linelen_of ws"
    by linarith
  then show ?thesis unfolding bs breaking_value_def counted_def by simp
qed

text \<open>No line can hold a word longer than \<open>L\<close>.\<close>

lemma breaking_no_long_word:
  assumes "breaking L ws bs" and "w \<in> set ws"
  shows "int (wlength w) \<le> L"
proof -
  from assms have "w \<in> set (concat bs)" by (simp add: breaking_def)
  then obtain b where b: "b \<in> set bs" "w \<in> set b" by auto
  from wlength_le_linelen [OF b(2)] have "int (wlength w) \<le> linelen_of b" .
  also from assms(1) b(1) have "\<dots> \<le> L" by (simp add: breaking_def)
  finally show ?thesis .
qed

subsection \<open>The outer loops of simplebreaks\<close>

lemma sb_linelen_eq:
  "ws \<noteq> [] \<Longrightarrow> sb_linelen w1 ws (linelen_of ws) = linelen_of (w1 # ws)"
  by (cases ws) (simp_all add: sb_linelen_def add_words_sum join_len_def)

lemma sb_linelen_Nil [simp]: "sb_linelen w1 [] ll = linelen_of [w1]"
  by (simp add: sb_linelen_def)

text \<open>
  The first loop ends at the first word, from the tail, whose line to the tail is longer
  than \<open>L\<close>; line lengths grow towards the head, so it has ended at \<open>ws\<close> exactly when the
  line from \<open>ws\<close> to the tail is longer than \<open>L\<close>.
\<close>

lemma sb_loop_state:
  assumes "sb_loop L last' ws = (ws', ll, st)" and "ws \<noteq> []"
  shows "(\<not> st \<longrightarrow> ll = linelen_of ws \<and> linelen_of ws \<le> L) \<and> (st \<longrightarrow> L < linelen_of ws)"
  using assms
proof (induction ws arbitrary: ws' ll st)
  case Nil
  then show ?case by simp
next
  case (Cons w1 ws)
  obtain ws1 ll1 st1 where r: "sb_loop L last' ws = (ws1, ll1, st1)"
    by (cases "sb_loop L last' ws") auto
  show ?case
  proof (cases "ws = []")
    case True
    with Cons.prems show ?thesis by (auto split: if_splits)
  next
    case False
    from Cons.IH [OF r False] have
      ih: "(\<not> st1 \<longrightarrow> ll1 = linelen_of ws \<and> linelen_of ws \<le> L) \<and> (st1 \<longrightarrow> L < linelen_of ws)" .
    have mono: "linelen_of ws \<le> linelen_of (w1 # ws)"
      using False by (cases ws) (simp_all add: add_words_sum join_len_def)
    show ?thesis
    proof (cases st1)
      case True
      with ih mono have "L < linelen_of (w1 # ws)" by simp
      moreover from Cons.prems r True have "st" by auto
      ultimately show ?thesis by simp
    next
      case notst: False
      with ih have ll1: "ll1 = linelen_of ws" by simp
      have sl: "sb_linelen w1 ws ll1 = linelen_of (w1 # ws)"
        unfolding ll1 using False by (rule sb_linelen_eq)
      from Cons.prems r notst sl show ?thesis
        by (auto split: if_splits)
    qed
  qed
qed

lemma sb_loop_Cons:
  "fst (sb_loop L last' (w1 # ws)) =
     hd (fst (sb_loop L last' (w1 # ws))) # fst (sb_loop L last' ws)"
  by (cases "sb_loop L last' ws") (auto split: if_splits)

lemma wkey_scratch [simp]:
  "wkey (w\<lparr>score := s\<rparr>) = wkey w" "wkey (w\<lparr>nextline := n\<rparr>) = wkey w"
  by (simp_all add: wkey_def)

lemma sb_loop_wkey: "map wkey (fst (sb_loop L last' ws)) = map wkey ws"
proof (induction ws)
  case Nil
  then show ?case by simp
next
  case (Cons w1 ws)
  obtain ws1 ll1 st1 where r: "sb_loop L last' ws = (ws1, ll1, st1)"
    by (cases "sb_loop L last' ws") auto
  with Cons have "map wkey ws1 = map wkey ws" by simp
  with r show ?case by (auto split: if_splits)
qed

lemma sb_loop_length [simp]: "length (fst (sb_loop L last' ws)) = length ws"
  using sb_loop_wkey [of L last' ws] by (metis length_map)

text \<open>The score of the head word after the loops, in both cases.\<close>

lemma sb_loop_head_fits:
  assumes "linelen_of (w1 # ws) \<le> L"
  shows "score (hd (fst (sb_loop L last' (w1 # ws)))) = (if last' then linelen_of (w1 # ws) else L)"
proof -
  obtain ws1 ll1 st1 where r: "sb_loop L last' ws = (ws1, ll1, st1)"
    by (cases "sb_loop L last' ws") auto
  show ?thesis
  proof (cases "ws = []")
    case True
    with assms r show ?thesis by simp
  next
    case False
    have "linelen_of ws \<le> linelen_of (w1 # ws)"
      using False by (cases ws) (simp_all add: add_words_sum join_len_def)
    with assms sb_loop_state [OF r False] have "\<not> st1" "ll1 = linelen_of ws" by auto
    moreover have "sb_linelen w1 ws (linelen_of ws) = linelen_of (w1 # ws)"
      using False by (rule sb_linelen_eq)
    ultimately show ?thesis using assms r by simp
  qed
qed

lemma sb_loop_head_long:
  assumes "L < linelen_of (w1 # ws)"
  shows "hd (fst (sb_loop L last' (w1 # ws)))
         = sb_inner L (int (wlength w1)) (w1\<lparr>score := - 1\<rparr>) (fst (sb_loop L last' ws))"
proof -
  obtain ws1 ll1 st1 where r: "sb_loop L last' ws = (ws1, ll1, st1)"
    by (cases "sb_loop L last' ws") auto
  show ?thesis
  proof (cases "ws = []")
    case True
    with assms r show ?thesis by simp
  next
    case False
    have sl: "sb_linelen w1 ws (linelen_of ws) = linelen_of (w1 # ws)"
      using False by (rule sb_linelen_eq)
    show ?thesis
    proof (cases st1)
      case True
      with r show ?thesis by simp
    next
      case notst: False
      with sb_loop_state [OF r False] have "ll1 = linelen_of ws" by simp
      with assms r sl show ?thesis by simp
    qed
  qed
qed

subsection \<open>What simplebreaks computes\<close>

text \<open>
  The property of the score of a word after \<open>simplebreaks\<close>, for the list \<open>s\<close> from that
  word to the tail: \<open>- 1\<close> if a word of \<open>s\<close> is longer than \<open>L\<close>, else the greatest value
  of a breaking of \<open>s\<close>.
\<close>

definition sb_spec :: "int \<Rightarrow> bool \<Rightarrow> word list \<Rightarrow> int \<Rightarrow> bool" where
  "sb_spec L last' s sc \<longleftrightarrow>
     (if \<exists>w \<in> set s. L < int (wlength w) then sc = - 1
      else (\<exists>bs. breaking L s bs \<and> breaking_value L last' bs = sc)
           \<and> (\<forall>bs. breaking L s bs \<longrightarrow> breaking_value L last' bs \<le> sc))"

lemma candidate_linelen:
  assumes "map wkey ws1 = map wkey ws"
  shows "int (wlength w1) + sum_list (map join_len (take j ws1)) = linelen_of (w1 # take j ws)"
proof -
  have "map wkey (take j ws1) = map wkey (take j ws)"
    using assms by (simp add: take_map [symmetric])
  then have "map join_len (take j ws1) = map join_len (take j ws)"
    by (rule joins_cong)
  then show ?thesis by (simp add: add_words_sum)
qed

lemma sb_head_fits_spec:
  assumes "linelen_of (w1 # ws) \<le> L"
  shows "sb_spec L last' (w1 # ws) (if last' then linelen_of (w1 # ws) else L)"
proof -
  have nolong: "\<not> (\<exists>w \<in> set (w1 # ws). L < int (wlength w))"
  proof
    assume "\<exists>w \<in> set (w1 # ws). L < int (wlength w)"
    then obtain w where w: "w \<in> set (w1 # ws)" "L < int (wlength w)" by blast
    from wlength_le_linelen [OF w(1)] assms w(2) show False by linarith
  qed
  have ex: "breaking L (w1 # ws) [w1 # ws]
        \<and> breaking_value L last' [w1 # ws] = (if last' then linelen_of (w1 # ws) else L)"
    using assms by (simp add: breaking_single breaking_value_single del: linelen_of.simps)
  have ub: "breaking_value L last' bs \<le> (if last' then linelen_of (w1 # ws) else L)"
    if "breaking L (w1 # ws) bs" for bs
  proof (cases last')
    case True
    with breaking_value_last_le [OF that] show ?thesis by simp
  next
    case False
    with breaking_value_le_width [OF that] show ?thesis by simp
  qed
  from nolong ex ub show ?thesis
    unfolding sb_spec_def by (simp only: if_False) blast
qed

lemma sb_head_long_spec:
  assumes tail: "\<forall>i < length ws. sb_spec L last' (drop i ws) (score (ws1 ! i))"
    and keys: "map wkey ws1 = map wkey ws"
    and long: "L < linelen_of (w1 # ws)"
  shows "sb_spec L last' (w1 # ws)
           (score (sb_inner L (int (wlength w1)) (w1\<lparr>score := - 1\<rparr>) ws1))"
proof -
  let ?r = "score (sb_inner L (int (wlength w1)) (w1\<lparr>score := - 1\<rparr>) ws1)"
  have len: "length ws1 = length ws" using keys by (metis length_map)
  have cand: "int (wlength w1) + sum_list (map join_len (take j ws1)) = linelen_of (w1 # take j ws)"
    for j using keys by (rule candidate_linelen)
  have ge: "- 1 \<le> ?r"
    using sb_inner_score_ge [of "w1\<lparr>score := - 1\<rparr>" L "int (wlength w1)" ws1] by simp
  have att: "?r = - 1 \<or> (\<exists>j < length ws. linelen_of (w1 # take j ws) \<le> L
               \<and> ?r = min (linelen_of (w1 # take j ws)) (score (ws1 ! j)))"
    using sb_inner_attained [of L "int (wlength w1)" "w1\<lparr>score := - 1\<rparr>" ws1]
    by (simp add: cand len del: linelen_of.simps)
  show ?thesis
  proof (cases "\<exists>w \<in> set (w1 # ws). L < int (wlength w)")
    case True
    then obtain w where w: "w \<in> set (w1 # ws)" "L < int (wlength w)" by blast
    have "?r = - 1"
    proof (rule ccontr)
      assume "?r \<noteq> - 1"
      with att obtain j where j: "j < length ws" "linelen_of (w1 # take j ws) \<le> L"
          "?r = min (linelen_of (w1 # take j ws)) (score (ws1 ! j))"
        by blast
      have "w \<notin> set (w1 # take j ws)"
      proof
        assume "w \<in> set (w1 # take j ws)"
        from wlength_le_linelen [OF this] j(2) w(2) show False by linarith
      qed
      moreover have "set (w1 # ws) = set (w1 # take j ws) \<union> set (drop j ws)"
        by (metis append_take_drop_id set_append append_Cons)
      ultimately have "w \<in> set (drop j ws)" using w(1) by blast
      with w(2) tail j(1) have "score (ws1 ! j) = - 1"
        unfolding sb_spec_def by (metis (no_types, lifting))
      moreover have "0 \<le> linelen_of (w1 # take j ws)" by (rule linelen_of_nonneg)
      ultimately have "?r = - 1" using j(3) by (simp add: min_def)
      with \<open>?r \<noteq> - 1\<close> show False by contradiction
    qed
    with True show ?thesis unfolding sb_spec_def by (simp del: linelen_of.simps)
  next
    case nolong: False
    then have w1: "int (wlength w1) \<le> L" by auto
    then have L0: "0 \<le> L" by linarith
    have ws_ne: "ws \<noteq> []"
    proof
      assume "ws = []"
      with long w1 show False by simp
    qed
    have nolong_drop: "\<not> (\<exists>w \<in> set (drop j ws). L < int (wlength w))" for j
      using nolong by (meson in_set_dropD list.set_intros(2))
    have tail_ex: "\<exists>bs. breaking L (drop j ws) bs \<and> breaking_value L last' bs = score (ws1 ! j)"
      if "j < length ws" for j
      using tail that nolong_drop [of j] unfolding sb_spec_def by (metis (no_types, lifting))
    have tail_ub: "breaking_value L last' bs \<le> score (ws1 ! j)"
      if "j < length ws" "breaking L (drop j ws) bs" for j bs
      using tail that nolong_drop [of j] unfolding sb_spec_def by (metis (no_types, lifting))
    have ub: "breaking_value L last' bs \<le> ?r" if br: "breaking L (w1 # ws) bs" for bs
    proof -
      from br obtain b bs' where bs: "bs = b # bs'" by (cases bs) auto
      with br have b: "b \<noteq> []" "linelen_of b \<le> L" "take (length b) (w1 # ws) = b"
          "length b \<le> length (w1 # ws)" "breaking L (drop (length b) (w1 # ws)) bs'"
        by (simp_all add: breaking_Cons del: linelen_of.simps)
      from b(1) obtain j where k: "length b = Suc j" by (cases b) auto
      have bj: "b = w1 # take j ws" using b(3) k by simp
      have "j \<noteq> length ws"
      proof
        assume "j = length ws"
        with bj have "b = w1 # ws" by simp
        with b(2) long show False by simp
      qed
      with b(4) k have j: "j < length ws" by simp
      then have "drop j ws \<noteq> []" by simp
      with b(5) k have ne: "bs' \<noteq> []" by auto
      from b(5) k have br': "breaking L (drop j ws) bs'" by simp
      have "breaking_value L last' bs = min (linelen_of b) (breaking_value L last' bs')"
        unfolding bs using ne b(2) by (rule breaking_value_Cons)
      also have "\<dots> \<le> min (linelen_of b) (score (ws1 ! j))"
        using tail_ub [OF j br'] by (simp add: min_def)
      also have "\<dots> = min (int (wlength w1) + sum_list (map join_len (take j ws1))) (score (ws1 ! j))"
        by (simp only: bj cand)
      also have "\<dots> \<le> ?r"
        using j b(2) by (intro sb_inner_candidate) (simp_all only: len cand bj)
      finally show ?thesis .
    qed
    have r0: "0 \<le> ?r"
    proof -
      from ws_ne have j0: "0 < length ws" by simp
      from tail_ex [OF j0] obtain bs0 where "breaking_value L last' bs0 = score (ws1 ! 0)" by blast
      with breaking_value_nonneg [OF L0, of last' bs0] have "0 \<le> score (ws1 ! 0)" by simp
      then have "0 \<le> min (int (wlength w1) + sum_list (map join_len (take 0 ws1))) (score (ws1 ! 0))"
        by simp
      also have "\<dots> \<le> ?r"
        using j0 w1 by (intro sb_inner_candidate) (simp_all add: len)
      finally show ?thesis .
    qed
    with att obtain j where j: "j < length ws" "linelen_of (w1 # take j ws) \<le> L"
        "?r = min (linelen_of (w1 # take j ws)) (score (ws1 ! j))"
      by auto
    from tail_ex [OF j(1)] obtain bs' where bs': "breaking L (drop j ws) bs'"
        "breaking_value L last' bs' = score (ws1 ! j)"
      by blast
    from j(1) have "drop j ws \<noteq> []" by simp
    with bs'(1) have ne: "bs' \<noteq> []" by auto
    have "breaking L (w1 # ws) ((w1 # take j ws) # bs')"
      using j(1,2) bs'(1) by (simp add: breaking_Cons del: linelen_of.simps)
    moreover have "breaking_value L last' ((w1 # take j ws) # bs') = ?r"
      using breaking_value_Cons [OF ne j(2), of last'] bs'(2) j(3) by simp
    ultimately have ex: "\<exists>bs. breaking L (w1 # ws) bs \<and> breaking_value L last' bs = ?r"
      by blast
    from nolong ex ub show ?thesis
      unfolding sb_spec_def by (simp only: if_False) blast
  qed
qed

lemma sb_loop_spec:
  "\<forall>i < length ws. sb_spec L last' (drop i ws) (score (fst (sb_loop L last' ws) ! i))"
proof (induction ws)
  case Nil
  then show ?case by simp
next
  case (Cons w1 ws)
  let ?ws1 = "fst (sb_loop L last' ws)"
  have head: "sb_spec L last' (w1 # ws) (score (hd (fst (sb_loop L last' (w1 # ws)))))"
  proof (cases "linelen_of (w1 # ws) \<le> L")
    case True
    from sb_head_fits_spec [OF True] sb_loop_head_fits [OF True]
    show ?thesis by (simp del: linelen_of.simps sb_loop.simps)
  next
    case False
    then have long: "L < linelen_of (w1 # ws)" by simp
    have "sb_spec L last' (w1 # ws)
            (score (sb_inner L (int (wlength w1)) (w1\<lparr>score := - 1\<rparr>) ?ws1))"
      using Cons.IH sb_loop_wkey long by (rule sb_head_long_spec)
    with sb_loop_head_long [OF long] show ?thesis by (simp del: linelen_of.simps sb_loop.simps)
  qed
  show ?case
  proof (intro allI impI)
    fix i assume i: "i < length (w1 # ws)"
    show "sb_spec L last' (drop i (w1 # ws)) (score (fst (sb_loop L last' (w1 # ws)) ! i))"
    proof (cases i)
      case 0
      have "fst (sb_loop L last' (w1 # ws)) ! 0 = hd (fst (sb_loop L last' (w1 # ws)))"
        by (subst sb_loop_Cons) simp
      with head 0 show ?thesis by (simp del: sb_loop.simps)
    next
      case (Suc i')
      have "fst (sb_loop L last' (w1 # ws)) ! Suc i' = ?ws1 ! i'"
        by (subst sb_loop_Cons) simp
      with Cons.IH i Suc show ?thesis by (simp del: sb_loop.simps)
    qed
  qed
qed

lemma simplebreaks_spec:
  assumes "ws \<noteq> []"
  shows "sb_spec L last' ws (fst (simplebreaks ws L last'))"
proof -
  from assms obtain w1 ws1 where ws: "ws = w1 # ws1" by (cases ws) auto
  have "fst (simplebreaks ws L last') = score (hd (fst (sb_loop L last' ws)))"
    unfolding ws simplebreaks_def by (simp split: prod.splits del: sb_loop.simps)
  moreover have "fst (sb_loop L last' ws) ! 0 = hd (fst (sb_loop L last' ws))"
    unfolding ws by (subst sb_loop_Cons) simp
  moreover have "sb_spec L last' (drop 0 ws) (score (fst (sb_loop L last' ws) ! 0))"
    using sb_loop_spec [of ws L last'] assms by blast
  ultimately show ?thesis by simp
qed

text \<open>
  Claim C5 (as amended). For a non-empty list of words, \<open>simplebreaks\<close> returns \<open>- 1\<close>
  exactly when a word is longer than \<open>L\<close>. Otherwise its value is the value of some
  breaking of the list into lines no longer than \<open>L\<close>, and no breaking has a greater
  value: it is the maximum over the breakings of the length of the shortest counted line,
  where a breaking with no counted line (a single line when \<open>last\<close> is 0) has the value
  \<open>L\<close>.
\<close>

theorem simplebreaks_maximin:
  assumes "ws \<noteq> []"
  shows "(fst (simplebreaks ws L last') = - 1 \<longleftrightarrow> (\<exists>w \<in> set ws. L < int (wlength w)))
     \<and> ((\<forall>w \<in> set ws. int (wlength w) \<le> L) \<longrightarrow>
          (\<exists>bs. breaking L ws bs \<and> breaking_value L last' bs = fst (simplebreaks ws L last'))
          \<and> (\<forall>bs. breaking L ws bs \<longrightarrow> breaking_value L last' bs \<le> fst (simplebreaks ws L last')))"
proof -
  let ?r = "fst (simplebreaks ws L last')"
  have spec: "sb_spec L last' ws ?r" using assms by (rule simplebreaks_spec)
  show ?thesis
  proof (cases "\<exists>w \<in> set ws. L < int (wlength w)")
    case True
    with spec have "?r = - 1" unfolding sb_spec_def by simp
    with True show ?thesis by auto
  next
    case False
    with spec have ex: "\<exists>bs. breaking L ws bs \<and> breaking_value L last' bs = ?r"
      and ub: "\<forall>bs. breaking L ws bs \<longrightarrow> breaking_value L last' bs \<le> ?r"
      unfolding sb_spec_def by simp_all
    from assms obtain w where "w \<in> set ws" by (cases ws) auto
    with False have "int (wlength w) \<le> L" by auto
    then have "0 \<le> L" by linarith
    from ex obtain bs where "breaking_value L last' bs = ?r" by blast
    with breaking_value_nonneg [OF \<open>0 \<le> L\<close>, of last' bs] have "?r \<noteq> - 1" by simp
    with False ex ub show ?thesis by auto
  qed
qed

definition two_words :: "word list" where
  "two_words = [new_word 0 0 1, new_word 0 2 1]"

definition four_words :: "word list" where
  "four_words = [new_word 0 0 3, new_word 0 4 5, new_word 0 10 5, new_word 0 16 3]"

theorem simplebreaks_maximin_witness:
  "fst (simplebreaks four_words 10 True) \<noteq> - 1
   \<and> breaking_value 10 True [take 2 four_words, drop 2 four_words]
       \<le> fst (simplebreaks four_words 10 True)
   \<and> breaking_value 10 True [take 2 four_words, drop 2 four_words] = 9"
proof -
  have ne: "four_words \<noteq> []" by (simp add: four_words_def)
  have short: "\<forall>w \<in> set four_words. int (wlength w) \<le> 10"
    by (simp add: four_words_def new_word_def)
  have br: "breaking 10 four_words [take 2 four_words, drop 2 four_words]"
    by (simp add: breaking_def four_words_def new_word_def join_len_def)
  have v: "breaking_value 10 True [take 2 four_words, drop 2 four_words] = 9"
    by (simp add: breaking_value_def counted_def four_words_def new_word_def join_len_def)
  from simplebreaks_maximin [OF ne, of 10 True] short br v show ?thesis
    by (metis (no_types, lifting) leD)
qed

text \<open>
  The claim as written fails when no line is counted: for two words of one byte,
  \<open>L = 5\<close> and \<open>last = 0\<close>, \<open>simplebreaks\<close> returns 5, which is the length of no
  line: the one-line breaking has a line of length 3, which is not counted, and the
  two-line breaking has the single counted line of length 1.
\<close>

theorem simplebreaks_maximin_counterexample:
  "fst (simplebreaks two_words 5 False) = 5
   \<and> counted False [two_words] = []
   \<and> linelen_of two_words = 3
   \<and> map linelen_of (counted False [take 1 two_words, drop 1 two_words]) = [1]"
  by (simp add: simplebreaks_def two_words_def new_word_def sb_linelen_def counted_def join_len_def)

subsection \<open>The line breaks left by the breakers\<close>

text \<open>
  \<open>chain_ok T cur\<close>: from \<open>cur\<close> on, every \<open>nextline\<close> that the output loops follow
  points to a later word or is \<open>NULL\<close>, and every line it delimits is at most \<open>T\<close> long.
\<close>

inductive chain_ok :: "int \<Rightarrow> word list \<Rightarrow> bool" for T :: int where
  chain_Nil: "chain_ok T []"
| chain_Cons: "cur \<noteq> [] \<Longrightarrow> nextline (hd cur) < length cur \<Longrightarrow>
     linelen_of (first_line cur) \<le> T \<Longrightarrow> chain_ok T (rest_lines cur) \<Longrightarrow> chain_ok T cur"

text \<open>
  \<open>ptr_ok T rest w\<close>: if \<open>w\<close>, followed by the words \<open>rest\<close>, has a score \<open>\<ge> 0\<close>, then its
  \<open>nextline\<close> points into \<open>rest\<close> or is \<open>NULL\<close>, the line up to there is at most \<open>T\<close> long,
  and the word pointed to has a score \<open>\<ge> 0\<close> as well.
\<close>

definition ptr_ok :: "int \<Rightarrow> word list \<Rightarrow> word \<Rightarrow> bool" where
  "ptr_ok T rest w \<longleftrightarrow>
     (0 \<le> score w \<longrightarrow>
        nextline w \<le> length rest
        \<and> int (wlength w) + sum_list (map join_len (take (length rest - nextline w) rest)) \<le> T
        \<and> (nextline w \<noteq> 0 \<longrightarrow> 0 \<le> score (rest ! (length rest - nextline w))))"

lemma ptr_ok_chain:
  assumes "ptr_ok T rest w" and "0 \<le> score w"
    and "\<forall>i < length rest. 0 \<le> score (rest ! i) \<longrightarrow> chain_ok T (drop i rest)"
  shows "chain_ok T (w # rest)"
proof -
  from assms(1,2) have p: "nextline w \<le> length rest"
      "int (wlength w) + sum_list (map join_len (take (length rest - nextline w) rest)) \<le> T"
      "nextline w \<noteq> 0 \<longrightarrow> 0 \<le> score (rest ! (length rest - nextline w))"
    by (simp_all add: ptr_ok_def)
  have np: "next_ptr (w # rest) = nextline w"
    using p(1) by (simp add: next_ptr_def)
  have fl: "first_line (w # rest) = w # take (length rest - nextline w) rest"
    using p(1) by (simp add: first_line_def np Suc_diff_le)
  have rl: "rest_lines (w # rest) = drop (length rest - nextline w) rest"
    using p(1) by (simp add: rest_lines_def np Suc_diff_le)
  have c: "chain_ok T (drop (length rest - nextline w) rest)"
  proof (cases "nextline w = 0")
    case True
    then show ?thesis by (simp add: chain_Nil)
  next
    case False
    with p(1) have "length rest - nextline w < length rest" by simp
    with assms(3) p(3) False show ?thesis by blast
  qed
  have l: "linelen_of (first_line (w # rest)) \<le> T"
    using p(2) by (simp add: fl add_words_sum)
  show ?thesis
  proof (rule chain_Cons)
    show "w # rest \<noteq> []" by simp
    show "nextline (hd (w # rest)) < length (w # rest)" using p(1) by simp
    show "linelen_of (first_line (w # rest)) \<le> T" by (rule l)
    show "chain_ok T (rest_lines (w # rest))" using c by (simp add: rl)
  qed
qed

subsection \<open>normalbreaks\<close>

lemma nb_candidate_wlength [simp]:
  "wlength (nb_candidate linelen minlen extra sc ptr w1) = wlength w1"
  by (simp add: nb_candidate_def Let_def)

lemma nb_candidate_ptr_ok:
  assumes "ptr_ok T all w1"
    and "ptr \<le> length all"
    and "int (wlength w1) + sum_list (map join_len (take (length all - ptr) all)) \<le> T"
    and "ptr \<noteq> 0 \<longrightarrow> sc = score (all ! (length all - ptr))"
  shows "ptr_ok T all (nb_candidate linelen minlen extra sc ptr w1)"
  using assms by (auto simp: nb_candidate_def Let_def ptr_ok_def)

lemma nb_inner_ptr_ok:
  assumes "ptr_ok target all w1"
    and "rest = drop k all" and "k \<le> length all"
    and "linelen = int (wlength w1) + sum_list (map join_len (take k all))"
  shows "ptr_ok target all (nb_inner target shortest last' linelen w1 rest)"
  using assms
proof (induction rest arbitrary: k w1 linelen)
  case Nil
  then have k: "k = length all" by simp
  show ?case
  proof (cases "linelen \<le> target")
    case False
    with Nil show ?thesis by simp
  next
    case True
    have "ptr_ok target all (nb_candidate linelen m e 0 0 w1)" for m e
      using Nil.prems(1) True Nil.prems(4) k
      by (intro nb_candidate_ptr_ok) simp_all
    with True show ?thesis by simp
  qed
next
  case (Cons w2 rest)
  from Cons.prems(2) have k: "k < length all"
    by (metis drop_all list.distinct(1) not_le)
  from Cons.prems(2) have w2: "w2 = all ! k"
    by (metis k hd_drop_conv_nth list.sel(1))
  from Cons.prems(2) have rest: "rest = drop (Suc k) all"
    by (metis drop_Suc list.sel(3) tl_drop)
  have lr: "length rest = length all - Suc k" using rest by simp
  show ?case
  proof (cases "linelen \<le> target")
    case False
    then have "nb_inner target shortest last' linelen w1 (w2 # rest) = w1" by simp
    with Cons.prems(1) show ?thesis by simp
  next
    case True
    let ?w1 = "nb_candidate linelen shortest (target - linelen) (score w2) (Suc (length rest)) w1"
    have ptr: "length all - Suc (length rest) = k" using k lr by simp
    have ok: "ptr_ok target all ?w1"
      using Cons.prems(1) True Cons.prems(4) k lr w2
      by (intro nb_candidate_ptr_ok) (simp_all add: ptr)
    have "take (Suc k) all = take k all @ [w2]"
      using k w2 by (simp add: take_Suc_conv_app_nth)
    then have ll: "linelen + join_len w2
        = int (wlength ?w1) + sum_list (map join_len (take (Suc k) all))"
      using Cons.prems(4) by simp
    have "ptr_ok target all (nb_inner target shortest last' (linelen + join_len w2) ?w1 rest)"
      using ok rest k ll by (intro Cons.IH [of _ "Suc k"]) simp_all
    with True show ?thesis by simp
  qed
qed

lemma nb_loop_chain:
  "\<forall>i < length ws. 0 \<le> score (nb_loop target shortest last' ws ! i)
      \<longrightarrow> chain_ok target (drop i (nb_loop target shortest last' ws))"
proof (induction ws)
  case Nil
  then show ?case by simp
next
  case (Cons w1 ws)
  let ?ws' = "nb_loop target shortest last' ws"
  let ?w = "nb_inner target shortest last' (int (wlength w1)) (w1\<lparr>score := - 1\<rparr>) ?ws'"
  have len: "length ?ws' = length ws"
    by (induction ws) (simp_all add: Let_def)
  have eq: "nb_loop target shortest last' (w1 # ws) = ?w # ?ws'"
    by (simp add: Let_def)
  have "ptr_ok target ?ws' (w1\<lparr>score := - 1\<rparr>)" by (simp add: ptr_ok_def)
  then have ok: "ptr_ok target ?ws' ?w"
    by (rule nb_inner_ptr_ok [where k = 0]) simp_all
  have tail: "\<forall>i < length ?ws'. 0 \<le> score (?ws' ! i) \<longrightarrow> chain_ok target (drop i ?ws')"
    using Cons.IH len by simp
  show ?case
  proof (intro allI impI)
    fix i assume i: "i < length (w1 # ws)"
      and sc: "0 \<le> score (nb_loop target shortest last' (w1 # ws) ! i)"
    show "chain_ok target (drop i (nb_loop target shortest last' (w1 # ws)))"
    proof (cases i)
      case 0
      with sc eq have "0 \<le> score ?w" by simp
      from ptr_ok_chain [OF ok this tail] 0 eq show ?thesis by simp
    next
      case (Suc i')
      with i sc eq Cons.IH show ?thesis by simp
    qed
  qed
qed

lemma nb_loop_length [simp]: "length (nb_loop target shortest last' ws) = length ws"
  by (induction ws) (simp_all add: Let_def)

text \<open>The target of \<open>fit\<close> is never above the first width tried.\<close>

lemma fit_loop_target_le:
  "tryL \<le> B \<Longrightarrow> target \<le> B \<Longrightarrow> fst (fit_loop last' ws tryL target sc) \<le> B"
proof (induction last' ws tryL target sc rule: fit_loop.induct)
  case (1 last' ws tryL target sc)
  obtain shortest ws' where sb: "simplebreaks ws tryL last' = (shortest, ws')"
    by (cases "simplebreaks ws tryL last'") auto
  show ?case
  proof (cases "shortest < 0")
    case True
    with sb "1.prems" show ?thesis by (subst fit_loop.simps) simp
  next
    case nonneg: False
    show ?thesis
    proof (cases "tryL - shortest < sc")
      case True
      have "fst (fit_loop last' ws' (tryL - 1) tryL (tryL - shortest)) \<le> B"
        using "1.prems" nonneg True sb by (intro "1.IH"(1) [of shortest ws']) simp_all
      with sb nonneg True show ?thesis by (subst fit_loop.simps) simp
    next
      case False
      have "fst (fit_loop last' ws' (tryL - 1) target sc) \<le> B"
        using "1.prems" nonneg False sb by (intro "1.IH"(2) [of shortest ws']) simp_all
      with sb nonneg False show ?thesis by (subst fit_loop.simps) simp
    qed
  qed
qed

lemma normalbreaks_chain:
  assumes "normalbreaks ws L fit last' = Inr ws3"
  shows "\<exists>T \<le> L. chain_ok T ws3"
proof (cases "ws = []")
  case True
  with assms have "ws3 = []" by (simp add: normalbreaks_def)
  then show ?thesis by (auto intro: chain_Nil)
next
  case False
  obtain target ws1 where t: "(if fit then fit_loop last' ws L L (L + 1) else (L, ws)) = (target, ws1)"
    by (cases "if fit then fit_loop last' ws L L (L + 1) else (L, ws)") auto
  have tle: "target \<le> L"
  proof (cases fit)
    case True
    with t fit_loop_target_le [of L L L last' ws "L + 1"] show ?thesis by simp
  next
    case False
    with t show ?thesis by simp
  qed
  obtain shortest ws2 where s: "simplebreaks ws1 target last' = (shortest, ws2)"
    by (cases "simplebreaks ws1 target last'") auto
  from assms False t s have ws3: "ws3 = nb_loop target shortest last' ws2"
      and sc: "0 \<le> score (hd ws3)"
    by (auto simp: normalbreaks_def Let_def split: if_splits)
  show ?thesis
  proof (cases "ws2 = []")
    case True
    with ws3 show ?thesis using tle by (auto intro: chain_Nil)
  next
    case ne: False
    then have "0 < length ws2" by simp
    moreover have "nb_loop target shortest last' ws2 ! 0 = hd ws3"
      using ne ws3 by (cases ws2) (simp_all add: Let_def)
    ultimately have "chain_ok target (drop 0 (nb_loop target shortest last' ws2))"
      using nb_loop_chain [of ws2 target shortest last'] sc by auto
    with ws3 tle show ?thesis by auto
  qed
qed

subsection \<open>justbreaks\<close>

lemma jb2_candidate_wlength [simp]:
  "wlength (jb2_candidate maxgap gap numgaps extra sc ptr w1) = wlength w1"
  by (simp add: jb2_candidate_def Let_def)

lemma jb2_candidate_ptr_ok:
  assumes "ptr_ok T all w1"
    and "ptr \<le> length all"
    and "int (wlength w1) + sum_list (map join_len (take (length all - ptr) all)) \<le> T"
    and "ptr \<noteq> 0 \<longrightarrow> sc = score (all ! (length all - ptr))"
  shows "ptr_ok T all (jb2_candidate maxgap gap numgaps extra sc ptr w1)"
  using assms by (auto simp: jb2_candidate_def Let_def ptr_ok_def)

lemma jb2_inner_ptr_ok:
  assumes "ptr_ok L all w1"
    and "rest = drop k all" and "k \<le> length all"
    and "extra = L - (int (wlength w1) + sum_list (map join_len (take k all)))"
  shows "ptr_ok L all (jb2_inner L maxgap last' numgaps extra w1 rest)"
  using assms
proof (induction rest arbitrary: k w1 extra numgaps)
  case Nil
  then have k: "k = length all" by simp
  show ?case
  proof (cases "0 \<le> extra")
    case False
    with Nil show ?thesis by simp
  next
    case True
    then have fits: "int (wlength w1) + sum_list (map join_len (take (length all) all)) \<le> L"
      using Nil.prems(4) k by simp
    have c: "ptr_ok L all (jb2_candidate maxgap g numgaps extra 0 0 w1)" for g
      using Nil.prems(1) fits by (intro jb2_candidate_ptr_ok) simp_all
    have z: "ptr_ok L all (w1\<lparr>nextline := 0, score := 0\<rparr>)"
      using fits by (simp add: ptr_ok_def)
    from True c z show ?thesis by simp
  qed
next
  case (Cons w2 rest)
  from Cons.prems(2) have k: "k < length all"
    by (metis drop_all list.distinct(1) not_le)
  from Cons.prems(2) have w2: "w2 = all ! k"
    by (metis k hd_drop_conv_nth list.sel(1))
  from Cons.prems(2) have rest: "rest = drop (Suc k) all"
    by (metis drop_Suc list.sel(3) tl_drop)
  have lr: "length rest = length all - Suc k" using rest by simp
  show ?case
  proof (cases "0 \<le> extra")
    case False
    then have "jb2_inner L maxgap last' numgaps extra w1 (w2 # rest) = w1" by simp
    with Cons.prems(1) show ?thesis by simp
  next
    case True
    let ?w1 = "jb2_candidate maxgap (gap_of L numgaps extra) numgaps extra (score w2)
                 (Suc (length rest)) w1"
    have ptr: "length all - Suc (length rest) = k" using k lr by simp
    have ok: "ptr_ok L all ?w1"
      using Cons.prems(1) True Cons.prems(4) k lr w2
      by (intro jb2_candidate_ptr_ok) (simp_all add: ptr)
    have "take (Suc k) all = take k all @ [w2]"
      using k w2 by (simp add: take_Suc_conv_app_nth)
    then have ll: "extra - join_len w2
        = L - (int (wlength ?w1) + sum_list (map join_len (take (Suc k) all)))"
      using Cons.prems(4) by simp
    have "ptr_ok L all (jb2_inner L maxgap last' (numgaps + 1) (extra - join_len w2) ?w1 rest)"
      using ok rest k ll by (intro Cons.IH [of _ "Suc k"]) simp_all
    with True show ?thesis by simp
  qed
qed

lemma jb2_loop_length [simp]: "length (jb2_loop L maxgap last' ws) = length ws"
  by (induction ws) (simp_all add: Let_def)

lemma jb2_loop_chain:
  "\<forall>i < length ws. 0 \<le> score (jb2_loop L maxgap last' ws ! i)
      \<longrightarrow> chain_ok L (drop i (jb2_loop L maxgap last' ws))"
proof (induction ws)
  case Nil
  then show ?case by simp
next
  case (Cons w1 ws)
  let ?ws' = "jb2_loop L maxgap last' ws"
  let ?w = "jb2_inner L maxgap last' 0 (L - int (wlength w1)) (w1\<lparr>score := - 1\<rparr>) ?ws'"
  have eq: "jb2_loop L maxgap last' (w1 # ws) = ?w # ?ws'"
    by (simp add: Let_def)
  have "ptr_ok L ?ws' (w1\<lparr>score := - 1\<rparr>)" by (simp add: ptr_ok_def)
  then have ok: "ptr_ok L ?ws' ?w"
    by (rule jb2_inner_ptr_ok [where k = 0]) simp_all
  have tail: "\<forall>i < length ?ws'. 0 \<le> score (?ws' ! i) \<longrightarrow> chain_ok L (drop i ?ws')"
    using Cons.IH by simp
  show ?case
  proof (intro allI impI)
    fix i assume i: "i < length (w1 # ws)"
      and sc: "0 \<le> score (jb2_loop L maxgap last' (w1 # ws) ! i)"
    show "chain_ok L (drop i (jb2_loop L maxgap last' (w1 # ws)))"
    proof (cases i)
      case 0
      with sc eq have "0 \<le> score ?w" by simp
      from ptr_ok_chain [OF ok this tail] 0 eq show ?thesis by simp
    next
      case (Suc i')
      with i sc eq Cons.IH show ?thesis by simp
    qed
  qed
qed

lemma jb1_loop_length [simp]: "length (jb1_loop L last' ws) = length ws"
  by (induction ws) (simp_all add: Let_def)

lemma justbreaks_chain:
  assumes "justbreaks ws L last' = Inr ws3"
  shows "chain_ok L ws3"
proof (cases "ws = []")
  case True
  with assms have "ws3 = []" by (simp add: justbreaks_def)
  then show ?thesis by (simp add: chain_Nil)
next
  case False
  define ws1 where "ws1 = jb1_loop L last' ws"
  from assms False have ws3: "ws3 = jb2_loop L (score (hd ws1)) last' ws1"
      and sc: "0 \<le> score (hd ws3)"
    by (auto simp: justbreaks_def Let_def ws1_def split: if_splits)
  have ne: "ws1 \<noteq> []" using False by (cases ws) (simp_all add: ws1_def Let_def)
  then have "0 < length ws1" by simp
  moreover have "jb2_loop L (score (hd ws1)) last' ws1 ! 0 = hd ws3"
    using ne ws3 by (cases ws1) (simp_all add: Let_def)
  ultimately have "chain_ok L (drop 0 (jb2_loop L (score (hd ws1)) last' ws1))"
    using jb2_loop_chain [of ws1 L "score (hd ws1)" last'] sc by auto
  with ws3 show ?thesis by simp
qed

lemma choose_breaks_chain:
  assumes "choose_breaks ws L fit just last' = Inr ws3"
  shows "\<exists>T \<le> L. chain_ok T ws3"
proof (cases just)
  case True
  with assms justbreaks_chain [of ws L last' ws3] show ?thesis
    by (auto simp: choose_breaks_def)
next
  case False
  with assms normalbreaks_chain [of ws L fit last' ws3] show ?thesis
    by (simp add: choose_breaks_def)
qed

subsection \<open>The lines of a chain\<close>

lemma chain_ok_mono: "chain_ok T cur \<Longrightarrow> T \<le> T' \<Longrightarrow> chain_ok T' cur"
proof (induction rule: chain_ok.induct)
  case chain_Nil
  show ?case by (rule chain_ok.chain_Nil)
next
  case (chain_Cons cur)
  show ?case
  proof (rule chain_ok.chain_Cons)
    show "cur \<noteq> []" by fact
    show "nextline (hd cur) < length cur" by fact
    show "linelen_of (first_line cur) \<le> T'" using chain_Cons by linarith
    show "chain_ok T' (rest_lines cur)" using chain_Cons by blast
  qed
qed

lemma chain_ok_ConsD:
  assumes "chain_ok T cur" and "cur \<noteq> []"
  shows "nextline (hd cur) < length cur" and "linelen_of (first_line cur) \<le> T"
    and "chain_ok T (rest_lines cur)"
  using assms by (auto elim: chain_ok.cases)

lemma first_line_Cons:
  assumes "cur \<noteq> []" and "nextline (hd cur) < length cur"
  shows "first_line cur = hd cur # tl (first_line cur)"
proof -
  from assms have "0 < length cur - next_ptr cur" by (simp add: next_ptr_def)
  then obtain k where k: "length cur - next_ptr cur = Suc k" by (cases "length cur - next_ptr cur") auto
  from assms(1) obtain w ws where cur: "cur = w # ws" by (cases cur) auto
  have "first_line cur = take (Suc k) (w # ws)"
    unfolding first_line_def k by (simp only: cur)
  then show ?thesis by (simp add: cur)
qed

lemma linelen_first_line:
  assumes "cur \<noteq> []" and "nextline (hd cur) < length cur"
  shows "add_words (int (wlength (hd cur))) (tl (first_line cur)) = linelen_of (first_line cur)"
  by (subst (2) first_line_Cons [OF assms]) simp

lemma rest_lines_empty_iff:
  assumes "cur \<noteq> []" and "nextline (hd cur) < length cur"
  shows "rest_lines cur = [] \<longleftrightarrow> next_ptr cur = 0"
  using assms by (auto simp: rest_lines_def next_ptr_def)

lemma first_line_Nil [simp]: "first_line [] = []"
  by (simp add: first_line_def)

lemma rest_lines_Nil [simp]: "rest_lines [] = []"
  by (simp add: rest_lines_def)

subsection \<open>touch: the longest line\<close>

lemma longest_line_Nil [simp]: "longest_line L [] = L"
  by (subst longest_line.simps) simp

lemma longest_line_step:
  "cur \<noteq> [] \<Longrightarrow>
   longest_line L cur =
     longest_line (max L (add_words (int (wlength (hd cur))) (tl (first_line cur)))) (rest_lines cur)"
  by (subst longest_line.simps) (simp add: Let_def max_def)

lemma longest_line_ge: "L \<le> longest_line L cur"
proof (induction L cur rule: longest_line.induct)
  case (1 L cur)
  show ?case
  proof (cases "cur = []")
    case True
    then show ?thesis by simp
  next
    case False
    let ?ll = "add_words (int (wlength (hd cur))) (tl (first_line cur))"
    have m: "(if ?ll > L then ?ll else L) = max L ?ll" by (simp add: max_def)
    have "max L ?ll \<le> longest_line (max L ?ll) (rest_lines cur)"
      using "1.IH" [OF False refl] unfolding m .
    then show ?thesis using longest_line_step [OF False, of L] by simp
  qed
qed

lemma longest_line_chain:
  "chain_ok T cur \<Longrightarrow> chain_ok (longest_line L cur) cur \<and> longest_line L cur \<le> max L T"
proof (induction arbitrary: L rule: chain_ok.induct)
  case chain_Nil
  then show ?case by (simp add: chain_ok.chain_Nil)
next
  case (chain_Cons cur)
  let ?ll = "add_words (int (wlength (hd cur))) (tl (first_line cur))"
  have ll: "?ll = linelen_of (first_line cur)"
    using chain_Cons.hyps(1,2) by (rule linelen_first_line)
  have step: "longest_line L cur = longest_line (max L ?ll) (rest_lines cur)"
    using chain_Cons.hyps(1) by (rule longest_line_step)
  from chain_Cons.IH [of "max L ?ll"] have
    ih: "chain_ok (longest_line (max L ?ll) (rest_lines cur)) (rest_lines cur)"
        "longest_line (max L ?ll) (rest_lines cur) \<le> max (max L ?ll) T"
    by simp_all
  have "?ll \<le> max L ?ll" by simp
  also have "\<dots> \<le> longest_line (max L ?ll) (rest_lines cur)" by (rule longest_line_ge)
  finally have fits: "linelen_of (first_line cur) \<le> longest_line L cur"
    by (simp only: step ll)
  have "chain_ok (longest_line L cur) cur"
  proof (rule chain_ok.chain_Cons)
    show "cur \<noteq> []" by fact
    show "nextline (hd cur) < length cur" by fact
    show "linelen_of (first_line cur) \<le> longest_line L cur" by (rule fits)
    show "chain_ok (longest_line L cur) (rest_lines cur)" using ih(1) by (simp only: step)
  qed
  moreover have "longest_line L cur \<le> max L T"
    using ih(2) chain_Cons.hyps(3) unfolding step ll by linarith
  ultimately show ?case by simp
qed

subsection \<open>The states of the output loop\<close>

text \<open>
  The values of \<open>numout\<close>, \<open>w1\<close> (as the list from it) and \<open>w2\<close> at the start of each
  round of \<open>while (numout < hang || w1)\<close>.
\<close>

function line_states :: "int \<Rightarrow> nat \<Rightarrow> word list \<Rightarrow> nat \<Rightarrow> (nat \<times> word list \<times> nat) list" where
  "line_states hang numout cur w2 =
     (if int numout < hang \<or> cur \<noteq> []
      then (numout, cur, w2)
           # line_states hang (Suc numout) (if cur \<noteq> [] then rest_lines cur else [])
               (if cur \<noteq> [] then next_ptr cur else w2)
      else [])"
  by pat_completeness auto
termination
proof (relation "measure (\<lambda>(hang, numout, cur, w2). nat (hang - int numout) + length cur)", goal_cases)
  case 1
  show ?case by simp
next
  case (2 hang numout cur w2)
  have "cur \<noteq> [] \<Longrightarrow> length (rest_lines cur) < length cur"
    by (cases cur) (auto simp: rest_lines_def next_ptr_def)
  moreover have "nat (hang - int (Suc numout)) \<le> nat (hang - int numout)"
    by simp
  moreover have "cur = [] \<Longrightarrow> nat (hang - int (Suc numout)) < nat (hang - int numout)"
    using 2 by auto
  ultimately show ?case
    by (cases "cur = []") auto
qed

declare line_states.simps [simp del]

lemma build_lines_states:
  "build_lines lines afp fs hang prefix suffix L just last' numout cur w2 =
     map (\<lambda>(numout, cur, w2). build_line lines afp fs hang prefix suffix L just last' numout cur w2)
       (line_states hang numout cur w2)"
proof (induction hang numout cur w2 rule: line_states.induct)
  case (1 hang numout cur w2)
  show ?case
  proof (cases "int numout < hang \<or> cur \<noteq> []")
    case True
    with "1.IH" show ?thesis
      by (subst build_lines.simps, subst line_states.simps) simp
  next
    case False
    then show ?thesis
      by (subst build_lines.simps, subst line_states.simps) simp
  qed
qed

lemma line_states_chain:
  assumes "chain_ok T cur" and "cur = [] \<longrightarrow> w2 = 0"
  shows "\<forall>(n, c, p) \<in> set (line_states hang numout cur w2). chain_ok T c \<and> (c = [] \<longrightarrow> p = 0)"
  using assms
proof (induction hang numout cur w2 rule: line_states.induct)
  case (1 hang numout cur w2)
  show ?case
  proof (cases "int numout < hang \<or> cur \<noteq> []")
    case False
    then show ?thesis by (subst line_states.simps) simp
  next
    case True
    let ?cur' = "if cur \<noteq> [] then rest_lines cur else []"
    let ?w2' = "if cur \<noteq> [] then next_ptr cur else w2"
    have c': "chain_ok T ?cur'"
      using "1.prems"(1) chain_ok_ConsD(3) [of T cur] by (auto intro: chain_Nil)
    have p': "?cur' = [] \<longrightarrow> ?w2' = 0"
    proof (cases "cur = []")
      case True
      with "1.prems"(2) show ?thesis by simp
    next
      case False
      with "1.prems"(1) have "nextline (hd cur) < length cur" by (rule chain_ok_ConsD)
      with False show ?thesis by (simp add: rest_lines_empty_iff)
    qed
    have "\<forall>(n, c, p) \<in> set (line_states hang (Suc numout) ?cur' ?w2').
            chain_ok T c \<and> (c = [] \<longrightarrow> p = 0)"
      using True c' p' by (intro "1.IH") simp_all
    with True "1.prems" show ?thesis
      by (subst line_states.simps) simp
  qed
qed

subsection \<open>The bytes of one output line\<close>

lemma emit_spaces_eq:
  "0 < numgaps \<Longrightarrow> 0 \<le> phase \<Longrightarrow>
   emit_spaces phase numgaps = (nat (phase div numgaps), phase mod numgaps)"
proof (induction phase numgaps rule: emit_spaces.induct)
  case (1 phase numgaps)
  show ?case
  proof (cases "phase \<ge> numgaps")
    case False
    with "1.prems" have "phase div numgaps = 0" "phase mod numgaps = phase"
      by (simp_all add: div_pos_pos_trivial)
    with False show ?thesis by (subst emit_spaces.simps) simp
  next
    case True
    have ih: "emit_spaces (phase - numgaps) numgaps
              = (nat ((phase - numgaps) div numgaps), (phase - numgaps) mod numgaps)"
      using "1.prems" True by (intro "1.IH") simp_all
    have "(phase + (- 1) * numgaps) div numgaps = - 1 + phase div numgaps"
      using "1.prems"(1) by (intro div_mult_self1) simp
    then have d: "(phase - numgaps) div numgaps = phase div numgaps - 1"
      by simp
    have m: "(phase - numgaps) mod numgaps = phase mod numgaps"
      by simp
    have "0 \<le> (phase - numgaps) div numgaps"
      using True "1.prems"(1) by (simp add: pos_imp_zdiv_nonneg_iff)
    then have "1 \<le> phase div numgaps"
      using d by linarith
    then have "Suc (nat (phase div numgaps - 1)) = nat (phase div numgaps)"
      by simp
    with True "1.prems"(1) ih d m show ?thesis
      by (subst emit_spaces.simps) simp
  qed
qed

lemma div_mod_split_sum:
  "0 < n \<Longrightarrow> a div n + (a mod n + b) div n = (a + b) div (n::int)"
proof -
  assume n: "0 < n"
  have "a + b = a mod n + b + (a div n) * n" by simp
  then have "(a + b) div n = (a mod n + b + (a div n) * n) div n" by simp
  also have "\<dots> = a div n + (a mod n + b) div n"
    using n by (intro div_mult_self1) simp
  finally show ?thesis by simp
qed

lemma write_words_plain:
  "int (length (write_words lines False numgaps extra phase ws)) = linelen_of ws"
proof (induction lines "False" numgaps extra phase ws rule: write_words.induct)
  case (1 lines numgaps extra phase)
  then show ?case by simp
next
  case (2 lines numgaps extra phase w2)
  then show ?case by simp
next
  case (3 lines numgaps extra phase w2 w3 ws)
  then show ?case by (simp add: add_words_sum join_len_def)
qed

lemma write_words_justified:
  assumes "0 < numgaps" "0 \<le> extra" "0 \<le> phase" "ws \<noteq> []" "phase < numgaps"
  shows "int (length (write_words lines True numgaps extra phase ws))
         = linelen_of ws + (phase + int (length ws - 1) * extra) div numgaps"
  using assms
proof (induction lines "True" numgaps extra phase ws rule: write_words.induct)
  case (1 lines numgaps extra phase)
  then show ?case by simp
next
  case (2 lines numgaps extra phase w2)
  then show ?case by (simp add: div_pos_pos_trivial)
next
  case (3 lines numgaps extra phase w2 w3 ws)
  let ?a = "phase + extra"
  have a0: "0 \<le> ?a" using "3.prems" by simp
  have em: "emit_spaces ?a numgaps = (nat (?a div numgaps), ?a mod numgaps)"
    using "3.prems"(1) a0 by (rule emit_spaces_eq)
  have p0: "0 \<le> ?a mod numgaps" "?a mod numgaps < numgaps" using "3.prems"(1) by simp_all
  have ih: "int (length (write_words lines True numgaps extra (?a mod numgaps) (w3 # ws)))
            = linelen_of (w3 # ws) + (?a mod numgaps + int (length ws) * extra) div numgaps"
    using "3.hyps"(1) [OF TrueI em [symmetric]] "3.prems" p0 by simp
  have d0: "0 \<le> ?a div numgaps"
    using a0 "3.prems"(1) by (simp add: pos_imp_zdiv_nonneg_iff)
  have split: "?a div numgaps + (?a mod numgaps + int (length ws) * extra) div numgaps
               = (?a + int (length ws) * extra) div numgaps"
    using "3.prems"(1) by (rule div_mod_split_sum)
  have "int (length (write_words lines True numgaps extra phase (w2 # w3 # ws)))
        = int (wlength w2) + 1 + ?a div numgaps + of_bool (isshifted w3)
          + int (length (write_words lines True numgaps extra (?a mod numgaps) (w3 # ws)))"
    using d0 by (simp add: em)
  also have "\<dots> = linelen_of (w2 # w3 # ws)
               + (?a div numgaps + (?a mod numgaps + int (length ws) * extra) div numgaps)"
    by (simp add: ih add_words_sum join_len_def)
  also have "\<dots> = linelen_of (w2 # w3 # ws) + (phase + int (length (w2 # w3 # ws) - 1) * extra) div numgaps"
    by (simp only: split) (simp add: algebra_simps)
  finally show ?case .
qed

lemma gaps_extra_eq:
  "gaps_extra numgaps extra ws
   = (numgaps + int (length ws), extra - sum_list (map join_len ws))"
  by (induction ws arbitrary: numgaps extra) simp_all

lemma length_out_prefix [simp]: "length (out_prefix lines afp hang prefix numout) = prefix"
  by (simp add: out_prefix_def)

lemma length_out_suffix [simp]: "length (out_suffix lines fs hang suffix numout) = suffix"
  by (simp add: out_suffix_def)

text \<open>
  The body written for a line that fits in \<open>L\<close>: exactly \<open>L\<close> bytes when the line is
  justified and has a gap, the length of the line otherwise.
\<close>

lemma body_length:
  assumes "line \<noteq> []" and "linelen_of line \<le> L"
  shows "int (length (write_words lines jst (int (length (tl line))) (L - linelen_of line)
                        (int (length (tl line)) sdiv 2) line))
         = (if jst \<and> tl line \<noteq> [] then L else linelen_of line)"
proof (cases "jst \<and> tl line \<noteq> []")
  case False
  show ?thesis
  proof (cases jst)
    case False
    then show ?thesis by (simp add: write_words_plain)
  next
    case True
    with \<open>\<not> (jst \<and> tl line \<noteq> [])\<close> assms(1) obtain w where "line = [w]"
      by (cases line) auto
    with True show ?thesis by simp
  qed
next
  case True
  define n where "n = int (length (tl line))"
  define e where "e = L - linelen_of line"
  from True have "0 < length (tl line)" by (cases "tl line") simp_all
  then have n: "0 < n" by (simp only: n_def of_nat_0_less_iff)
  have half: "n sdiv 2 = n div 2" using n by (simp add: sdiv_nonneg)
  have h0: "0 \<le> n div 2" using n by simp
  have hn: "n div 2 < n" using n by simp
  have e0: "0 \<le> e" using assms(2) by (simp add: e_def)
  have len: "int (length line - 1) = n" by (simp add: n_def)
  have "(n div 2 + e * n) div n = e + n div 2 div n"
    using n by (intro div_mult_self1) simp
  moreover have "n div 2 div n = 0" using h0 hn by (rule div_pos_pos_trivial)
  ultimately have tot: "(n div 2 + n * e) div n = e" by (simp add: mult.commute)
  have "int (length (write_words lines True n e (n div 2) line))
        = linelen_of line + (n div 2 + int (length line - 1) * e) div n"
    using n e0 h0 assms(1) hn by (rule write_words_justified)
  also have "\<dots> = L" unfolding len tot by (simp add: e_def)
  finally show ?thesis
    using True by (simp only: n_def [symmetric] e_def [symmetric] half) simp
qed

lemma build_line_length:
  assumes "cur \<noteq> [] \<longrightarrow> nextline (hd cur) < length cur \<and> linelen_of (first_line cur) \<le> L"
    and "cur = [] \<longrightarrow> w2 = 0" and "0 \<le> L"
  shows "int (length (build_line lines afp fs hang prefix suffix L just last' numout cur w2))
         = (if suffix \<noteq> 0 \<or> (just \<and> (rest_lines cur \<noteq> [] \<or> last'))
            then int prefix + L + int suffix
            else int prefix + L - (L - linelen_of (first_line cur)))"
proof (cases "cur = []")
  case True
  with assms(2,3) show ?thesis
    by (simp add: build_line_def Let_def)
next
  case False
  with assms(1) have ptr: "nextline (hd cur) < length cur" and fits: "linelen_of (first_line cur) \<le> L"
    by simp_all
  have fl: "first_line cur = hd cur # tl (first_line cur)"
    using False ptr by (rule first_line_Cons)
  then have flne: "first_line cur \<noteq> []" by (metis list.distinct(1))
  have ll: "int (wlength (hd cur)) + sum_list (map join_len (tl (first_line cur)))
            = linelen_of (first_line cur)"
    by (subst (2) fl) (simp add: add_words_sum)
  have ge: "gaps_extra 0 (L - int (wlength (hd cur))) (tl (first_line cur))
            = (int (length (tl (first_line cur))), L - linelen_of (first_line cur))"
    using ll by (simp add: gaps_extra_eq)
  have more: "rest_lines cur \<noteq> [] \<longleftrightarrow> next_ptr cur \<noteq> 0"
    using rest_lines_empty_iff [OF False ptr] by simp
  define jst where "jst = (just \<and> (next_ptr cur \<noteq> 0 \<or> last'))"
  define body where "body = write_words lines jst (int (length (tl (first_line cur))))
      (L - linelen_of (first_line cur)) (int (length (tl (first_line cur))) sdiv 2) (first_line cur)"
  have bl: "int (length body) = (if jst \<and> tl (first_line cur) \<noteq> [] then L else linelen_of (first_line cur))"
    unfolding body_def using flne fits by (rule body_length)
  define linelen where "linelen = (if suffix \<noteq> 0 \<or> jst then L + (int prefix + int suffix)
                     else int prefix + L - (L - linelen_of (first_line cur)))"
  have eq: "build_line lines afp fs hang prefix suffix L just last' numout cur w2
      = out_prefix lines afp hang prefix (Suc numout) @ body
        @ replicate (nat (linelen - (int prefix + int suffix) - int (length body))) CHR '' ''
        @ out_suffix lines fs hang suffix (Suc numout)"
    using False by (auto simp add: build_line_def Let_def ge jst_def body_def linelen_def)
  have pad: "int (length body) \<le> linelen - (int prefix + int suffix)"
    using bl fits by (auto simp: linelen_def)
  have len: "int (length (build_line lines afp fs hang prefix suffix L just last' numout cur w2))
        = linelen"
    unfolding eq using pad by simp
  show ?thesis
  proof (cases "suffix \<noteq> 0 \<or> jst")
    case True
    then have "suffix \<noteq> 0 \<or> (just \<and> (rest_lines cur \<noteq> [] \<or> last'))"
      unfolding jst_def more .
    moreover from True have "linelen = L + (int prefix + int suffix)"
      unfolding linelen_def by (simp only: if_True)
    ultimately show ?thesis unfolding len by auto
  next
    case False
    then have "\<not> (suffix \<noteq> 0 \<or> (just \<and> (rest_lines cur \<noteq> [] \<or> last')))"
      unfolding jst_def more .
    moreover from False have "linelen = int prefix + L - (L - linelen_of (first_line cur))"
      unfolding linelen_def by (simp only: if_False)
    ultimately show ?thesis unfolding len by auto
  qed
qed

subsection \<open>The output lines of reformat\<close>

text \<open>
  A successful call under the driver's precondition: the breaker's words \<open>ws\<close> and the
  final \<open>L\<close> (the longest line with \<open>touch\<close>, else \<open>width - prefix - suffix\<close>), the
  output as the lines of the loop states, every line of the chain at most \<open>L\<close> long.
\<close>

lemma reformat_chain:
  assumes "reformat lines afp fs hang prefix suffix width cap fit guess just last' Report touch
             terminalchars = Inr out"
    and "int prefix + int suffix < width"
  shows "\<exists>ws0 ws2 ws L.
             make_words prefix suffix 0 True lines = Inr ws0
           \<and> long_words_pass lines (width - int prefix - int suffix) Report
                 (if guess then guess_loop lines cap terminalchars None ws0 else ws0) = Inr ws2
           \<and> choose_breaks ws2 (width - int prefix - int suffix) fit just last' = Inr ws
           \<and> out = build_lines lines afp fs hang prefix suffix L just last' 0 ws 0
           \<and> chain_ok L ws \<and> 0 \<le> L \<and> L \<le> width - int prefix - int suffix
           \<and> L = touch_width just touch ws (width - int prefix - int suffix)"
proof -
  let ?L0 = "width - int prefix - int suffix"
  from reformat_Inr [OF assms(1)] obtain ws0 ws2 ws3 where
      mw: "make_words prefix suffix 0 True lines = Inr ws0"
    and lw: "long_words_pass lines ?L0 Report
               (if guess then guess_loop lines cap terminalchars None ws0 else ws0) = Inr ws2"
    and br: "choose_breaks ws2 ?L0 fit just last' = Inr ws3"
    and out: "out = build_lines lines afp fs hang prefix suffix (touch_width just touch ws3 ?L0)
                      just last' 0 ws3 0"
    by blast
  from choose_breaks_chain [OF br] obtain T where T: "T \<le> ?L0" "chain_ok T ws3" by blast
  have L0: "0 \<le> ?L0" using assms(2) by simp
  have "chain_ok (touch_width just touch ws3 ?L0) ws3 \<and> 0 \<le> touch_width just touch ws3 ?L0
        \<and> touch_width just touch ws3 ?L0 \<le> ?L0"
  proof (cases "\<not> just \<and> touch")
    case True
    then have tw: "touch_width just touch ws3 ?L0 = longest_line 0 ws3"
      by (simp add: touch_width_def)
    from longest_line_chain [OF T(2), of 0] have
      "chain_ok (longest_line 0 ws3) ws3" "longest_line 0 ws3 \<le> max 0 T" by simp_all
    moreover have "0 \<le> longest_line 0 ws3" by (rule longest_line_ge)
    ultimately show ?thesis using tw T(1) L0 by simp
  next
    case False
    then have tw: "touch_width just touch ws3 ?L0 = ?L0"
      by (auto simp: touch_width_def)
    from T(2) T(1) have "chain_ok ?L0 ws3" by (rule chain_ok_mono)
    then show ?thesis using tw L0 by simp
  qed
  with mw lw br out show ?thesis by blast
qed




text \<open>
  Claim C1. In a successful call with \<open>width > prefix + suffix\<close>, no output line has more
  than \<open>width\<close> bytes.
\<close>

theorem reformat_width:
  assumes "reformat lines afp fs hang prefix suffix width cap fit guess just last' Report touch
             terminalchars = Inr out"
    and "int prefix + int suffix < width"
  shows "\<forall>l \<in> set out. int (length l) \<le> width"
proof
  fix l assume l: "l \<in> set out"
  from reformat_chain [OF assms] obtain ws L where
      out: "out = build_lines lines afp fs hang prefix suffix L just last' 0 ws 0"
    and ch: "chain_ok L ws" and L0: "0 \<le> L" and Lw: "L \<le> width - int prefix - int suffix"
    by blast
  have st: "\<forall>(n, c, p) \<in> set (line_states hang 0 ws 0). chain_ok L c \<and> (c = [] \<longrightarrow> p = 0)"
    using ch by (rule line_states_chain) simp
  from l obtain numout cur w2 where s: "(numout, cur, w2) \<in> set (line_states hang 0 ws 0)"
    and ll: "l = build_line lines afp fs hang prefix suffix L just last' numout cur w2"
    unfolding out build_lines_states by auto
  from st s have c: "chain_ok L cur" and p: "cur = [] \<longrightarrow> w2 = 0" by auto
  have fit: "cur \<noteq> [] \<longrightarrow> nextline (hd cur) < length cur \<and> linelen_of (first_line cur) \<le> L"
    using chain_ok_ConsD(1,2) [OF c] by blast
  have fl: "linelen_of (first_line cur) \<le> L"
    using fit L0 by (cases "cur = []") simp_all
  have "int (length l)
        = (if suffix \<noteq> 0 \<or> (just \<and> (rest_lines cur \<noteq> [] \<or> last'))
           then int prefix + L + int suffix
           else int prefix + L - (L - linelen_of (first_line cur)))"
    unfolding ll using fit p L0 by (rule build_line_length)
  also have "\<dots> \<le> int prefix + L + int suffix"
    using fl by simp
  also have "\<dots> \<le> width" using Lw by simp
  finally show "int (length l) \<le> width" .
qed

theorem reformat_width_witness:
  "reformat [''The quick brown fox jumps'', ''over the lazy dog.''] 0 0 0 0 0 15
       False False False False False False False {}
     = Inr [''The quick brown'', ''fox jumps over'', ''the lazy dog.'']
   \<and> list_all (\<lambda>l. int (length l) \<le> 15)
         [''The quick brown'', ''fox jumps over'', ''the lazy dog.'']"
proof -
  have r: "reformat [''The quick brown fox jumps'', ''over the lazy dog.''] 0 0 0 0 0 15
       False False False False False False False {}
     = Inr [''The quick brown'', ''fox jumps over'', ''the lazy dog.'']"
    by code_simp
  have w: "int 0 + int 0 < 15" by simp
  from reformat_width [OF r w] have
    "list_all (\<lambda>l. int (length l) \<le> 15)
       [''The quick brown'', ''fox jumps over'', ''the lazy dog.'']"
    unfolding list_all_iff .
  with r show ?thesis by (rule conjI)
qed

end
